theory Spec2Isabelle
  imports Main "HOL-Library.Word" "HOL-Library.Monad_Syntax"
begin

unbundle bit_operations_syntax

section \<open>Data model of \<^verbatim>\<open>SHA256.cpp\<close>\<close>

type_synonym u8 = "8 word"
type_synonym u32 = "32 word"
type_synonym u64 = "64 word"

text \<open>
  The eight global registers \<^verbatim>\<open>h0 .. h7\<close> (lines 18 to 25). They are the only mutable
  state that outlives a call of \<^verbatim>\<open>sha256\<close>, so the model threads them through explicitly.
\<close>

record state =
  h0 :: u32
  h1 :: u32
  h2 :: u32
  h3 :: u32
  h4 :: u32
  h5 :: u32
  h6 :: u32
  h7 :: u32

text \<open>The initialisers of the globals: the state in which a process starts.\<close>

definition IV :: state where
  "IV = \<lparr>h0 = 0x6a09e667, h1 = 0xbb67ae85, h2 = 0x3c6ef372, h3 = 0xa54ff53a,
         h4 = 0x510e527f, h5 = 0x9b05688c, h6 = 0x1f83d9ab, h7 = 0x5be0cd19\<rparr>"

text \<open>The table \<^verbatim>\<open>k[64]\<close> of round constants (lines 29 to 38).\<close>

definition k :: "u32 list" where
  "k = [
    0x428A2F98, 0x71374491, 0xB5C0FBCF, 0xE9B5DBA5, 0x3956C25B, 0x59F111F1, 0x923F82A4, 0xAB1C5ED5,
    0xD807AA98, 0x12835B01, 0x243185BE, 0x550C7DC3, 0x72BE5D74, 0x80DEB1FE, 0x9BDC06A7, 0xC19BF174,
    0xE49B69C1, 0xEFBE4786, 0x0FC19DC6, 0x240CA1CC, 0x2DE92C6F, 0x4A7484AA, 0x5CB0A9DC, 0x76F988DA,
    0x983E5152, 0xA831C66D, 0xB00327C8, 0xBF597FC7, 0xC6E00BF3, 0xD5A79147, 0x06CA6351, 0x14292967,
    0x27B70A85, 0x2E1B2138, 0x4D2C6DFC, 0x53380D13, 0x650A7354, 0x766A0ABB, 0x81C2C92E, 0x92722C85,
    0xA2BFE8A1, 0xA81A664B, 0xC24B8B70, 0xC76C51A3, 0xD192E819, 0xD6990624, 0xF40E3585, 0x106AA070,
    0x19A4C116, 0x1E376C08, 0x2748774C, 0x34B0BCB5, 0x391C0CB3, 0x4ED8AA4A, 0x5B9CCA4F, 0x682E6FF3,
    0x748F82EE, 0x78A5636F, 0x84C87814, 0x8CC70208, 0x90BEFFFA, 0xA4506CEB, 0xBEF9A3F7, 0xC67178F2]"

section \<open>The macros (lines 40 to 46)\<close>

text \<open>
  On \<^verbatim>\<open>uint32_t\<close> operands \<^verbatim>\<open>>>\<close> is the logical shift \<^const>\<open>drop_bit\<close> and \<^verbatim>\<open><<\<close> is
  \<^const>\<open>push_bit\<close>, which drops the bits shifted out of the 32-bit word.
\<close>

definition ROTRIGHT :: "u32 \<Rightarrow> nat \<Rightarrow> u32" where
  "ROTRIGHT word bits = (drop_bit bits word OR push_bit (32 - bits) word)"

definition CH :: "u32 \<Rightarrow> u32 \<Rightarrow> u32 \<Rightarrow> u32" where
  "CH x y z = ((x AND y) XOR (NOT x AND z))"

definition MAJ :: "u32 \<Rightarrow> u32 \<Rightarrow> u32 \<Rightarrow> u32" where
  "MAJ x y z = ((x AND y) XOR (x AND z) XOR (y AND z))"

definition EP0 :: "u32 \<Rightarrow> u32" where
  "EP0 x = (ROTRIGHT x 2 XOR ROTRIGHT x 13 XOR ROTRIGHT x 22)"

definition EP1 :: "u32 \<Rightarrow> u32" where
  "EP1 x = (ROTRIGHT x 6 XOR ROTRIGHT x 11 XOR ROTRIGHT x 25)"

definition SIG0 :: "u32 \<Rightarrow> u32" where
  "SIG0 x = (ROTRIGHT x 7 XOR ROTRIGHT x 18 XOR drop_bit 3 x)"

definition SIG1 :: "u32 \<Rightarrow> u32" where
  "SIG1 x = (ROTRIGHT x 17 XOR ROTRIGHT x 19 XOR drop_bit 10 x)"

section \<open>Padding (lines 49 to 59)\<close>

text \<open>
  The \<^verbatim>\<open>while\<close> loop of line 54. \<^verbatim>\<open>message.size() * 8 + 64\<close> is computed in the 64-bit
  \<^verbatim>\<open>size_t\<close>, hence the reduction modulo \<open>2 ^ 64\<close> before the one modulo 512.
\<close>

function pad_zeros :: "u8 list \<Rightarrow> u8 list" where
  "pad_zeros message =
     (if ((length message * 8 + 64) mod 2 ^ 64) mod 512 \<noteq> 0
      then pad_zeros (message @ [0x00])
      else message)"
  by pat_completeness auto
termination
proof (relation "measure (\<lambda>message. (if length message mod 64 \<le> 56 then 56 else 120)
                                     - length message mod 64)")
  fix message :: "u8 list"
  assume c: "((length message * 8 + 64) mod 2 ^ 64) mod 512 \<noteq> 0"
  define r where "r = length message mod 64"
  have d: "(512::nat) dvd 2 ^ 64" by simp
  have e: "((length message * 8 + 64) mod 2 ^ 64) mod 512 = (length message * 8 + 64) mod 512"
    by (rule mod_mod_cancel [OF d])
  have "(length message * 8 + 64) mod 512 = (8 * (length message + 8)) mod (8 * 64)"
    by (simp add: algebra_simps)
  also have "\<dots> = 8 * ((length message + 8) mod 64)"
    by (rule mult_mod_right [symmetric])
  finally have f: "(length message + 8) mod 64 \<noteq> 0"
    using c e by simp
  have g: "(length message + 8) mod 64 = (r + 8) mod 64"
    by (simp add: mod_add_left_eq r_def)
  have b: "r < 64" "r \<noteq> 56"
    using f g by (auto simp: r_def)
  have s: "length (message @ [0x00]) mod 64 = (if r = 63 then 0 else Suc r)"
    by (simp add: mod_Suc r_def)
  have "(if (if r = 63 then 0 else Suc r) \<le> 56 then 56 else 120) - (if r = 63 then 0 else Suc r)
      < (if r \<le> 56 then 56 else 120) - r"
    using b by (simp split: if_splits) arith
  then show "(message @ [0x00], message)
      \<in> measure (\<lambda>message. (if length message mod 64 \<le> 56 then 56 else 120)
                                     - length message mod 64)"
    unfolding in_measure s r_def [symmetric] .
qed simp

declare pad_zeros.simps [simp del]

text \<open>
  Lines 49 to 59: the bytes of the input, the byte \<^verbatim>\<open>0x80\<close>, the zero bytes, and the eight
  bytes of \<^verbatim>\<open>original_bit_length\<close>, a \<^verbatim>\<open>uint64_t\<close> holding \<^verbatim>\<open>message.size() * 8\<close>.
\<close>

definition pad :: "string \<Rightarrow> u8 list" where
  "pad input =
     (let message = map of_char input;
          original_bit_length = (word_of_nat (length message * 8) :: u64);
          message = message @ [0x80];
          message = pad_zeros message
      in fold (\<lambda>i m. m @ [ucast (drop_bit (56 - i * 8) original_bit_length AND 0xFF)])
           [0..<8] message)"

section \<open>Message schedule (lines 63 to 73)\<close>

text \<open>
  \<^verbatim>\<open>message[n]\<close> on a \<^verbatim>\<open>std::vector\<close> is defined only for \<^verbatim>\<open>n < message.size()\<close>; the
  model returns \<^const>\<open>None\<close> for any other index.
\<close>

definition byte_at :: "u8 list \<Rightarrow> nat \<Rightarrow> u8 option" where
  "byte_at message n = (if n < length message then Some (message ! n) else None)"

text \<open>
  The loop of lines 66 to 68. The bytes are promoted and shifted; the value stored in the
  \<^verbatim>\<open>uint32_t\<close> is the 32-bit word with the four bytes in big-endian order.
\<close>

function load_loop :: "u8 list \<Rightarrow> nat \<Rightarrow> nat \<Rightarrow> u32 list \<Rightarrow> u32 list option" where
  "load_loop message i j w =
     (if j < 16 then
        do {
          b0 \<leftarrow> byte_at message (i + j * 4);
          b1 \<leftarrow> byte_at message (i + j * 4 + 1);
          b2 \<leftarrow> byte_at message (i + j * 4 + 2);
          b3 \<leftarrow> byte_at message (i + j * 4 + 3);
          load_loop message i (j + 1)
            (w[j := push_bit 24 (ucast b0) OR push_bit 16 (ucast b1)
                      OR push_bit 8 (ucast b2) OR ucast b3])
        }
      else Some w)"
  by pat_completeness auto
termination
  by (relation "measure (\<lambda>(message, i, j, w). 16 - j)") auto

declare load_loop.simps [simp del]

text \<open>The loop of lines 71 to 73.\<close>

function extend_loop :: "nat \<Rightarrow> u32 list \<Rightarrow> u32 list" where
  "extend_loop j w =
     (if j < 64 then
        extend_loop (j + 1)
          (w[j := SIG1 (w ! (j - 2)) + w ! (j - 7) + SIG0 (w ! (j - 15)) + w ! (j - 16)])
      else w)"
  by pat_completeness auto
termination
  by (relation "measure (\<lambda>(j, w). 64 - j)") auto

declare extend_loop.simps [simp del]

text \<open>
  The array \<^verbatim>\<open>w[64]\<close> is declared without an initialiser; every entry is written before
  it is read, and the model starts from zeros.
\<close>

definition schedule :: "u8 list \<Rightarrow> nat \<Rightarrow> u32 list option" where
  "schedule message i =
     do { w \<leftarrow> load_loop message i 0 (replicate 64 0); Some (extend_loop 16 w) }"

section \<open>Compression (lines 76 to 98)\<close>

type_synonym regs = "u32 \<times> u32 \<times> u32 \<times> u32 \<times> u32 \<times> u32 \<times> u32 \<times> u32"

text \<open>The loop of lines 79 to 95 on the working variables \<^verbatim>\<open>a .. h\<close>.\<close>

function compress_loop :: "u32 list \<Rightarrow> nat \<Rightarrow> regs \<Rightarrow> regs" where
  "compress_loop w j (a, b, c, d, e, f, g, h) =
     (if j < 64 then
        (let S1 = EP1 e;
             ch = CH e f g;
             temp1 = h + S1 + ch + k ! j + w ! j;
             S0 = EP0 a;
             maj = MAJ a b c;
             temp2 = S0 + maj
         in compress_loop w (j + 1) (temp1 + temp2, a, b, c, d + temp1, e, f, g))
      else (a, b, c, d, e, f, g, h))"
  by pat_completeness auto
termination
  by (relation "measure (\<lambda>(w, j, r). 64 - j)") auto

declare compress_loop.simps [simp del]

text \<open>Lines 76 to 98 for one chunk: load the globals, run the rounds, add to the globals.\<close>

definition compress :: "state \<Rightarrow> u32 list \<Rightarrow> state" where
  "compress st w =
     (case compress_loop w 0 (h0 st, h1 st, h2 st, h3 st, h4 st, h5 st, h6 st, h7 st) of
        (a, b, c, d, e, f, g, h) \<Rightarrow>
          \<lparr>h0 = h0 st + a, h1 = h1 st + b, h2 = h2 st + c, h3 = h3 st + d,
           h4 = h4 st + e, h5 = h5 st + f, h6 = h6 st + g, h7 = h7 st + h\<rparr>)"

text \<open>The loop of line 62 over the chunks of the padded message.\<close>

function process_loop :: "u8 list \<Rightarrow> nat \<Rightarrow> state \<Rightarrow> state option" where
  "process_loop message i st =
     (if i < length message then
        do { w \<leftarrow> schedule message i; process_loop message (i + 64) (compress st w) }
      else Some st)"
  by pat_completeness auto
termination
  by (relation "measure (\<lambda>(message, i, st). length message - i)") auto

declare process_loop.simps [simp del]

section \<open>Output (lines 101 to 106)\<close>

definition hex_digit :: "nat \<Rightarrow> char" where
  "hex_digit d = ''0123456789abcdef'' ! d"

text \<open>\<^verbatim>\<open>std::hex\<close>: the digits of the value in base 16, lowercase, without leading zeros.\<close>

function to_hex :: "nat \<Rightarrow> string" where
  "to_hex n = (if n < 16 then [hex_digit n] else to_hex (n div 16) @ [hex_digit (n mod 16)])"
  by pat_completeness auto
termination
  by (relation "measure id") auto

declare to_hex.simps [simp del]

text \<open>\<^verbatim>\<open>std::setw(n)\<close> with \<^verbatim>\<open>std::setfill(c)\<close>: fill on the left up to width \<open>n\<close>.\<close>

definition setw_fill :: "nat \<Rightarrow> char \<Rightarrow> string \<Rightarrow> string" where
  "setw_fill n c s = replicate (n - length s) c @ s"

definition hex8 :: "u32 \<Rightarrow> string" where
  "hex8 x = setw_fill 8 (CHR ''0'') (to_hex (unat x))"

definition render :: "state \<Rightarrow> string" where
  "render st = hex8 (h0 st) @ hex8 (h1 st) @ hex8 (h2 st) @ hex8 (h3 st)
             @ hex8 (h4 st) @ hex8 (h5 st) @ hex8 (h6 st) @ hex8 (h7 st)"

section \<open>The function \<^verbatim>\<open>sha256\<close> (lines 48 to 107)\<close>

text \<open>
  A call takes the globals as it finds them and leaves them updated; it returns the string
  built from them. \<^const>\<open>None\<close> stands for a read outside the vector.
\<close>

definition sha256 :: "state \<Rightarrow> string \<Rightarrow> (string \<times> state) option" where
  "sha256 st input =
     do { st' \<leftarrow> process_loop (pad input) 0 st; Some (render st', st') }"

text \<open>
  A process is a sequence of calls of \<^verbatim>\<open>sha256\<close>; each call starts from the globals as the
  previous one left them.
\<close>

fun calls :: "state \<Rightarrow> string list \<Rightarrow> (string list \<times> state) option" where
  "calls st [] = Some ([], st)"
| "calls st (x # xs) =
     do { (d, st') \<leftarrow> sha256 st x; (ds, st'') \<leftarrow> calls st' xs; Some (d # ds, st'') }"

section \<open>Notions used in the statements and proofs\<close>

text \<open>
  The definitions of this section are not part of the program. They name closed forms of
  the loops above and the notions the properties are stated with.
\<close>

text \<open>The number of zero bytes the loop of line 54 appends to a vector of \<open>n\<close> bytes.\<close>

definition zero_count :: "nat \<Rightarrow> nat" where
  "zero_count n = (if n mod 64 \<le> 56 then 56 else 120) - n mod 64"

text \<open>The eight bytes the loop of lines 57 to 59 appends for an input of \<open>n\<close> bytes.\<close>

definition length_bytes :: "nat \<Rightarrow> u8 list" where
  "length_bytes n = map (\<lambda>i. ucast (drop_bit (56 - i * 8) (word_of_nat (n * 8) :: u64) AND 0xFF)) [0..<8]"

text \<open>The value a sequence of bytes denotes when read big-endian.\<close>

definition be_nat :: "u8 list \<Rightarrow> nat" where
  "be_nat bytes = foldl (\<lambda>a b. a * 256 + unat b) 0 bytes"

text \<open>The right-hand side of line 67 with the reads done.\<close>

definition word_at :: "u8 list \<Rightarrow> nat \<Rightarrow> u32" where
  "word_at message n =
     (push_bit 24 (ucast (message ! n)) OR push_bit 16 (ucast (message ! (n + 1)))
        OR push_bit 8 (ucast (message ! (n + 2))) OR ucast (message ! (n + 3)))"

text \<open>The body of the loop of lines 79 to 95 as a function on the working variables.\<close>

definition round_regs :: "u32 \<Rightarrow> u32 \<Rightarrow> regs \<Rightarrow> regs" where
  "round_regs kj wj r = (case r of (a, b, c, d, e, f, g, h) \<Rightarrow>
        (let S1 = EP1 e;
             ch = CH e f g;
             temp1 = h + S1 + ch + kj + wj;
             S0 = EP0 a;
             maj = MAJ a b c;
             temp2 = S0 + maj
         in (temp1 + temp2, a, b, c, d + temp1, e, f, g)))"

text \<open>
  The specification's \<open>ROTR\<close>, \<open>SIG0\<close>, \<open>SIG1\<close> and round, written with the rotation of the
  word library instead of the two shifts of the macro.
\<close>

definition rotr :: "nat \<Rightarrow> u32 \<Rightarrow> u32" where
  "rotr n x = word_rotr n x"

definition sigma0 :: "u32 \<Rightarrow> u32" where
  "sigma0 x = (rotr 7 x XOR rotr 18 x XOR drop_bit 3 x)"

definition sigma1 :: "u32 \<Rightarrow> u32" where
  "sigma1 x = (rotr 17 x XOR rotr 19 x XOR drop_bit 10 x)"

definition spec_round :: "u32 \<Rightarrow> u32 \<Rightarrow> regs \<Rightarrow> regs" where
  "spec_round kj wj r = (case r of (a, b, c, d, e, f, g, h) \<Rightarrow>
     (let S1 = rotr 6 e XOR rotr 11 e XOR rotr 25 e;
          ch = (e AND f) XOR (NOT e AND g);
          t1 = h + S1 + ch + kj + wj;
          S0 = rotr 2 a XOR rotr 13 a XOR rotr 22 a;
          maj = (a AND b) XOR (a AND c) XOR (b AND c);
          t2 = S0 + maj
      in (t1 + t2, a, b, c, d + t1, e, f, g)))"

text \<open>The \<open>m\<close> low hexadecimal digits of \<open>n\<close>, most significant first.\<close>

fun digits :: "nat \<Rightarrow> nat \<Rightarrow> string" where
  "digits 0 n = []"
| "digits (Suc m) n = digits m (n div 16) @ [hex_digit (n mod 16)]"

text \<open>
  The specification's digest: the registers as 32 bytes, each register big-endian, in the
  order \<^verbatim>\<open>h0 .. h7\<close>; and the two lowercase hexadecimal characters of a byte.
\<close>

definition be_bytes :: "u32 \<Rightarrow> u8 list" where
  "be_bytes x = [ucast (drop_bit 24 x), ucast (drop_bit 16 x), ucast (drop_bit 8 x), ucast x]"

definition serialize :: "state \<Rightarrow> u8 list" where
  "serialize st = concat (map be_bytes [h0 st, h1 st, h2 st, h3 st, h4 st, h5 st, h6 st, h7 st])"

definition hex_byte :: "u8 \<Rightarrow> string" where
  "hex_byte b = [hex_digit (unat b div 16), hex_digit (unat b mod 16)]"

text \<open>
  The padded message, the schedule and the final registers of the inputs \<^verbatim>\<open>"abc"\<close> and
  \<^verbatim>\<open>""\<close>, and the registers after a second call on \<^verbatim>\<open>"abc"\<close>.
\<close>

definition block_abc :: "u8 list" where
  "block_abc = [
     0x61, 0x62, 0x63, 0x80, 0x00, 0x00, 0x00, 0x00, 0x00, 0x00, 0x00, 0x00, 0x00, 0x00, 0x00, 0x00,
     0x00, 0x00, 0x00, 0x00, 0x00, 0x00, 0x00, 0x00, 0x00, 0x00, 0x00, 0x00, 0x00, 0x00, 0x00, 0x00,
     0x00, 0x00, 0x00, 0x00, 0x00, 0x00, 0x00, 0x00, 0x00, 0x00, 0x00, 0x00, 0x00, 0x00, 0x00, 0x00,
     0x00, 0x00, 0x00, 0x00, 0x00, 0x00, 0x00, 0x00, 0x00, 0x00, 0x00, 0x00, 0x00, 0x00, 0x00, 0x18]"

definition block_empty :: "u8 list" where
  "block_empty = [
     0x80, 0x00, 0x00, 0x00, 0x00, 0x00, 0x00, 0x00, 0x00, 0x00, 0x00, 0x00, 0x00, 0x00, 0x00, 0x00,
     0x00, 0x00, 0x00, 0x00, 0x00, 0x00, 0x00, 0x00, 0x00, 0x00, 0x00, 0x00, 0x00, 0x00, 0x00, 0x00,
     0x00, 0x00, 0x00, 0x00, 0x00, 0x00, 0x00, 0x00, 0x00, 0x00, 0x00, 0x00, 0x00, 0x00, 0x00, 0x00,
     0x00, 0x00, 0x00, 0x00, 0x00, 0x00, 0x00, 0x00, 0x00, 0x00, 0x00, 0x00, 0x00, 0x00, 0x00, 0x00]"

definition w_abc :: "u32 list" where
  "w_abc = [
     0x61626380, 0x00000000, 0x00000000, 0x00000000, 0x00000000, 0x00000000, 0x00000000, 0x00000000,
     0x00000000, 0x00000000, 0x00000000, 0x00000000, 0x00000000, 0x00000000, 0x00000000, 0x00000018,
     0x61626380, 0x000f0000, 0x7da86405, 0x600003c6, 0x3e9d7b78, 0x0183fc00, 0x12dcbfdb, 0xe2e2c38e,
     0xc8215c1a, 0xb73679a2, 0xe5bc3909, 0x32663c5b, 0x9d209d67, 0xec8726cb, 0x702138a4, 0xd3b7973b,
     0x93f5997f, 0x3b68ba73, 0xaff4ffc1, 0xf10a5c62, 0x0a8b3996, 0x72af830a, 0x9409e33e, 0x24641522,
     0x9f47bf94, 0xf0a64f5a, 0x3e246a79, 0x27333ba3, 0x0c4763f2, 0x840abf27, 0x7a290d5d, 0x065c43da,
     0xfb3e89cb, 0xcc7617db, 0xb9e66c34, 0xa9993667, 0x84badedd, 0xc21462bc, 0x1487472c, 0xb20f7a99,
     0xef57b9cd, 0xebe6b238, 0x9fe3095e, 0x78bc8d4b, 0xa43fcf15, 0x668b2ff8, 0xeeaba2cc, 0x12b1edeb]"

definition w_empty :: "u32 list" where
  "w_empty = [
     0x80000000, 0x00000000, 0x00000000, 0x00000000, 0x00000000, 0x00000000, 0x00000000, 0x00000000,
     0x00000000, 0x00000000, 0x00000000, 0x00000000, 0x00000000, 0x00000000, 0x00000000, 0x00000000,
     0x80000000, 0x00000000, 0x00205000, 0x00000000, 0x22000800, 0x00000000, 0x05089542, 0x80000000,
     0x58080000, 0x0040a000, 0x00162505, 0x66001800, 0xd6222580, 0x14225508, 0xd645f95c, 0xc9282000,
     0xc3f10094, 0x284ca766, 0x06886dc6, 0xa37bf116, 0x717cbe96, 0xfec2d74a, 0xa7b67f00, 0x811596a2,
     0x98a6e768, 0x03b20c82, 0x5d1da7c9, 0xb156b935, 0xc3ddca11, 0x249c107f, 0xc48d24ef, 0x5de54c30,
     0xdefece65, 0x2ca1480d, 0x3c15332c, 0x01cec9ad, 0x160cccd0, 0x0bacda98, 0x361b8fe0, 0xd2320ba6,
     0x029b7007, 0x7546587c, 0x07f54f39, 0xf808ddc3, 0xdcca7608, 0x5e427188, 0x44bcec5d, 0x3b5ec49b]"

definition state_abc :: state where
  "state_abc = \<lparr>h0 = 0xba7816bf, h1 = 0x8f01cfea, h2 = 0x414140de, h3 = 0x5dae2223, h4 = 0xb00361a3, h5 = 0x96177a9c, h6 = 0xb410ff61, h7 = 0xf20015ad\<rparr>"

definition state_empty :: state where
  "state_empty = \<lparr>h0 = 0xe3b0c442, h1 = 0x98fc1c14, h2 = 0x9afbf4c8, h3 = 0x996fb924, h4 = 0x27ae41e4, h5 = 0x649b934c, h6 = 0xa495991b, h7 = 0x7852b855\<rparr>"

definition state_abc_abc :: state where
  "state_abc_abc = \<lparr>h0 = 0x1de51655, h1 = 0xe1a8ca5f, h2 = 0x570c062c, h3 = 0x6fef497d, h4 = 0xd8110762, h5 = 0xbd8a7a48, h6 = 0xdd95482f, h7 = 0x7d22e0a2\<rparr>"

section \<open>The streaming interface of the specification\<close>

text \<open>
  Modelled from the spec: the source has only the one-shot function \<^verbatim>\<open>sha256\<close>; the
  operations \<^verbatim>\<open>new\<close>, \<^verbatim>\<open>absorb\<close>, \<^verbatim>\<open>finalize\<close> and \<^verbatim>\<open>hash\<close> of sections 4.1 and 6
  of the specification are missing from it. They are written here from the specification's
  words, on top of the schedule and the compression of the source.
\<close>

text \<open>Modelled from the spec: the only error, raised on a finalized instance.\<close>

datatype error = AlreadyFinalized

text \<open>
  Modelled from the spec: an instance owns its state, a buffer of unconsumed bytes, the
  64-bit counter of absorbed bits, and the flag of the terminal state.
\<close>

record hasher =
  hstate :: state
  buffer :: "u8 list"
  bit_count :: u64
  finalized :: bool

text \<open>Modelled from the spec: \<^verbatim>\<open>new()\<close>, a fresh instance with the initial state.\<close>

definition new :: hasher where
  "new = \<lparr>hstate = IV, buffer = [], bit_count = 0, finalized = False\<rparr>"

text \<open>
  Modelled from the spec: one 64-byte block handed to the scheduler and the compressor,
  which are the source's \<^const>\<open>schedule\<close> and \<^const>\<open>compress\<close>.
\<close>

definition absorb_block :: "state \<Rightarrow> u8 list \<Rightarrow> state" where
  "absorb_block st block = (case schedule block 0 of Some w \<Rightarrow> compress st w | None \<Rightarrow> st)"

text \<open>
  Modelled from the spec: every full 64-byte prefix of the buffer is compressed and removed
  from the buffer.
\<close>

function emit_blocks :: "hasher \<Rightarrow> hasher" where
  "emit_blocks h =
     (if 64 \<le> length (buffer h)
      then emit_blocks (h\<lparr>hstate := absorb_block (hstate h) (take 64 (buffer h)),
                          buffer := drop 64 (buffer h)\<rparr>)
      else h)"
  by pat_completeness auto
termination
  by (relation "measure (\<lambda>h. length (buffer h))") auto

declare emit_blocks.simps [simp del]

text \<open>
  Modelled from the spec: \<^verbatim>\<open>absorb(bytes)\<close> appends the bytes, adds \<open>8 * len(bytes)\<close> to the
  counter and emits the full blocks; it fails on a finalized instance.
\<close>

definition absorb :: "u8 list \<Rightarrow> hasher \<Rightarrow> error + hasher" where
  "absorb bytes h =
     (if finalized h then Inl AlreadyFinalized
      else Inr (emit_blocks (h\<lparr>buffer := buffer h @ bytes,
                                 bit_count := bit_count h + 8 * word_of_nat (length bytes)\<rparr>)))"

text \<open>Modelled from the spec: a sequence of \<^verbatim>\<open>absorb\<close> calls, one for each chunk.\<close>

fun absorb_all :: "u8 list list \<Rightarrow> hasher \<Rightarrow> error + hasher" where
  "absorb_all [] h = Inr h"
| "absorb_all (c # cs) h = (case absorb c h of Inl e \<Rightarrow> Inl e | Inr h' \<Rightarrow> absorb_all cs h')"

text \<open>Modelled from the spec: the counter as eight big-endian bytes.\<close>

definition count_bytes :: "u64 \<Rightarrow> u8 list" where
  "count_bytes c = [ucast (drop_bit 56 c), ucast (drop_bit 48 c), ucast (drop_bit 40 c),
     ucast (drop_bit 32 c), ucast (drop_bit 24 c), ucast (drop_bit 16 c), ucast (drop_bit 8 c),
     ucast c]"

text \<open>
  Modelled from the spec: \<^verbatim>\<open>finalize()\<close> appends \<^verbatim>\<open>0x80\<close>, zero bytes until the length in
  bits plus 64 is a multiple of 512 (the loop \<^const>\<open>pad_zeros\<close>), and the counter; it
  compresses the one or two blocks and returns the 32 bytes of the state. The instance
  becomes terminal.
\<close>

definition finalize :: "hasher \<Rightarrow> error + u8 list \<times> hasher" where
  "finalize h =
     (if finalized h then Inl AlreadyFinalized
      else
        (let padded = pad_zeros (buffer h @ [0x80]) @ count_bytes (bit_count h);
             h' = emit_blocks (h\<lparr>buffer := padded\<rparr>)
         in Inr (serialize (hstate h'), h'\<lparr>finalized := True\<rparr>)))"

text \<open>
  Modelled from the spec: \<^verbatim>\<open>new(); absorb(c1); ...; absorb(cn); finalize()\<close>, the one-shot
  \<^verbatim>\<open>hash\<close>, and \<^verbatim>\<open>to_hex\<close>.
\<close>

definition stream_digest :: "u8 list list \<Rightarrow> error + u8 list" where
  "stream_digest chunks =
     (case absorb_all chunks new of
        Inl e \<Rightarrow> Inl e
      | Inr h \<Rightarrow> (case finalize h of Inl e \<Rightarrow> Inl e | Inr (d, h') \<Rightarrow> Inr d))"

definition hash :: "u8 list \<Rightarrow> error + u8 list" where
  "hash bytes = stream_digest [bytes]"

definition to_hex_string :: "u8 list \<Rightarrow> string" where
  "to_hex_string d = concat (map hex_byte d)"

text \<open>
  Used in the proofs: the blocks of a byte sequence compressed in order, and the relation
  between an instance and the bytes it has absorbed.
\<close>

function run_blocks :: "state \<Rightarrow> u8 list \<Rightarrow> state" where
  "run_blocks st xs =
     (if 64 \<le> length xs then run_blocks (absorb_block st (take 64 xs)) (drop 64 xs) else st)"
  by pat_completeness auto
termination
  by (relation "measure (\<lambda>(st, xs). length xs)") auto

declare run_blocks.simps [simp del]

definition absorbed :: "hasher \<Rightarrow> u8 list \<Rightarrow> bool" where
  "absorbed h x \<longleftrightarrow>
     \<not> finalized h \<and> bit_count h = word_of_nat (length x * 8)
     \<and> (\<exists>pre. x = pre @ buffer h \<and> length pre mod 64 = 0 \<and> hstate h = run_blocks IV pre)"

section \<open>Properties\<close>

lemma pad_cond:
  "((n * 8 + 64) mod 2 ^ 64) mod 512 \<noteq> 0 \<longleftrightarrow> n mod 64 \<noteq> 56" for n :: nat
proof -
  have d: "(512::nat) dvd 2 ^ 64" by simp
  have e: "((n * 8 + 64) mod 2 ^ 64) mod 512 = (n * 8 + 64) mod 512"
    by (rule mod_mod_cancel [OF d])
  have "(n * 8 + 64) mod 512 = (8 * (n + 8)) mod (8 * 64)" by (simp add: algebra_simps)
  also have "\<dots> = 8 * ((n + 8) mod 64)" by (rule mult_mod_right [symmetric])
  finally have f: "(n * 8 + 64) mod 512 = 8 * ((n + 8) mod 64)" .
  have g: "(n + 8) mod 64 = (n mod 64 + 8) mod 64" by (simp add: mod_add_left_eq)
  have "n mod 64 < 64" by simp
  then have "(n mod 64 + 8) mod 64 = 0 \<longleftrightarrow> n mod 64 = 56" by arith
  with e f g show ?thesis by simp
qed

lemma zero_count_step:
  assumes "n mod 64 \<noteq> 56"
  shows "zero_count n = Suc (zero_count (Suc n))"
proof -
  define r where "r = n mod 64"
  have b: "r < 64" "r \<noteq> 56" using assms by (simp_all add: r_def)
  have c: "Suc n mod 64 = (if r = 63 then 0 else Suc r)" by (simp add: mod_Suc r_def)
  have "(if r \<le> 56 then 56 else 120) - r
      = Suc ((if (if r = 63 then 0 else Suc r) \<le> 56 then 56 else 120) - (if r = 63 then 0 else Suc r))"
    using b by (simp split: if_splits) arith
  then show ?thesis unfolding zero_count_def c r_def [symmetric] .
qed

lemma zero_count_stop: "n mod 64 = 56 \<Longrightarrow> zero_count n = 0"
  by (simp add: zero_count_def)

lemma pad_zeros_replicate: "pad_zeros message = message @ replicate (zero_count (length message)) 0"
proof (induction message rule: pad_zeros.induct)
  case (1 message)
  show ?case
  proof (cases "length message mod 64 = 56")
    case True
    then have nc: "\<not> ((length message * 8 + 64) mod 2 ^ 64) mod 512 \<noteq> 0"
      using pad_cond [of "length message"] by blast
    have "pad_zeros message = message"
      by (subst pad_zeros.simps) (simp only: nc if_False)
    then show ?thesis
      using True by (simp add: zero_count_stop)
  next
    case False
    then have c: "((length message * 8 + 64) mod 2 ^ 64) mod 512 \<noteq> 0"
      using pad_cond [of "length message"] by blast
    have "pad_zeros message = pad_zeros (message @ [0])"
      by (subst pad_zeros.simps) (simp only: c simp_thms if_True)
    also have "\<dots> = (message @ [0]) @ replicate (zero_count (length (message @ [0]))) 0"
      by (rule 1 [OF c])
    also have "\<dots> = message @ replicate (zero_count (length message)) 0"
      using zero_count_step [OF False] by (simp add: replicate_app_Cons_same)
    finally show ?thesis .
  qed
qed

lemma fold_snoc_map: "fold (\<lambda>i m. m @ [f i]) xs m = m @ map f xs"
  by (induction xs arbitrary: m) simp_all

lemma pad_eq:
  "pad input = map of_char input @ [0x80] @ replicate (zero_count (Suc (length input))) 0
      @ length_bytes (length input)"
  by (simp add: pad_def Let_def pad_zeros_replicate fold_snoc_map length_bytes_def)

lemma length_pad: "length (pad input) = length input + 1 + zero_count (Suc (length input)) + 8"
  by (simp add: pad_eq length_bytes_def)

lemma zero_count_mod: "(n + zero_count n) mod 64 = 56"
proof -
  define r where "r = n mod 64"
  have b: "r < 64" by (simp add: r_def)
  have "(n + zero_count n) mod 64 = (r + ((if r \<le> 56 then 56 else 120) - r)) mod 64"
    unfolding zero_count_def r_def by (simp add: mod_add_left_eq)
  also have "\<dots> = 56" using b by (simp split: if_splits)
  finally show ?thesis .
qed

lemma length_pad_mod: "length (pad input) mod 64 = 0"
proof -
  have "length (pad input) = (Suc (length input) + zero_count (Suc (length input))) + 8"
    by (simp add: length_pad)
  then have "length (pad input) mod 64 = ((Suc (length input) + zero_count (Suc (length input))) mod 64 + 8) mod 64"
    by (simp only: mod_add_left_eq)
  then show ?thesis by (simp only: zero_count_mod) simp
qed

lemma load_loop_closed:
  "j \<le> 16 \<Longrightarrow> length w = 64 \<Longrightarrow> i + 64 \<le> length message \<Longrightarrow>
   load_loop message i j w
     = Some (take j w @ map (\<lambda>t. word_at message (i + t * 4)) [j..<16] @ drop 16 w)"
proof (induction message i j w rule: load_loop.induct)
  case (1 message i j w)
  show ?case
  proof (cases "j < 16")
    case True
    let ?v = "word_at message (i + j * 4)"
    have bs: "byte_at message (i + j * 4) = Some (message ! (i + j * 4))"
      "byte_at message (i + j * 4 + 1) = Some (message ! (i + j * 4 + 1))"
      "byte_at message (i + j * 4 + 2) = Some (message ! (i + j * 4 + 2))"
      "byte_at message (i + j * 4 + 3) = Some (message ! (i + j * 4 + 3))"
      using True "1.prems" by (simp_all add: byte_at_def)
    have step: "load_loop message i j w = load_loop message i (j + 1) (w[j := ?v])"
      by (subst load_loop.simps) (simp only: True if_True bs Option.bind.simps word_at_def)
    have ih: "load_loop message i (j + 1) (w[j := ?v])
        = Some (take (j + 1) (w[j := ?v]) @ map (\<lambda>t. word_at message (i + t * 4)) [j + 1..<16]
            @ drop 16 (w[j := ?v]))"
      using "1.IH" [OF True bs] True "1.prems" by (simp add: word_at_def)
    have a: "take (j + 1) (w[j := ?v]) = take j w @ [?v]"
      using True "1.prems" by (simp add: take_Suc_conv_app_nth)
    have b: "drop 16 (w[j := ?v]) = drop 16 w"
      using True by simp
    have c: "[j..<16] = j # [j + 1..<16]"
      using True by (simp add: upt_conv_Cons)
    show ?thesis unfolding step ih a b c by simp
  next
    case False
    with "1.prems" have "j = 16" by simp
    then show ?thesis using "1.prems" by (subst load_loop.simps) simp
  qed
qed

lemma length_extend_loop: "length (extend_loop j w) = length w"
proof (induction j w rule: extend_loop.induct)
  case (1 j w)
  show ?case
  proof (cases "j < 64")
    case True
    then show ?thesis using 1 by (subst extend_loop.simps) simp
  next
    case False
    then show ?thesis by (subst extend_loop.simps) simp
  qed
qed

lemma extend_loop_below: "t < j \<Longrightarrow> extend_loop j w ! t = w ! t"
proof (induction j w rule: extend_loop.induct)
  case (1 j w)
  show ?case
  proof (cases "j < 64")
    case True
    then show ?thesis using 1 by (subst extend_loop.simps) simp
  next
    case False
    then show ?thesis by (subst extend_loop.simps) simp
  qed
qed

lemma extend_loop_rec:
  "length w = 64 \<Longrightarrow> 16 \<le> j \<Longrightarrow> j \<le> t \<Longrightarrow> t < 64 \<Longrightarrow>
   extend_loop j w ! t
     = SIG1 (extend_loop j w ! (t - 2)) + extend_loop j w ! (t - 7)
       + SIG0 (extend_loop j w ! (t - 15)) + extend_loop j w ! (t - 16)"
proof (induction j w rule: extend_loop.induct)
  case (1 j w)
  let ?v = "SIG1 (w ! (j - 2)) + w ! (j - 7) + SIG0 (w ! (j - 15)) + w ! (j - 16)"
  let ?w = "w[j := ?v]"
  from "1.prems" have j: "j < 64" by simp
  have step: "extend_loop j w = extend_loop (j + 1) ?w"
    using j by (subst extend_loop.simps) simp
  show ?case
  proof (cases "t = j")
    case True
    have "extend_loop (j + 1) ?w ! q = ?w ! q" if "q \<le> j" for q
      using that by (intro extend_loop_below) simp
    then show ?thesis
      unfolding step True using "1.prems" by simp
  next
    case False
    then show ?thesis
      unfolding step using "1.IH" [OF j] "1.prems" by simp
  qed
qed

lemma compress_loop_step:
  "compress_loop w j r
     = (if j < 64 then compress_loop w (j + 1) (round_regs (k ! j) (w ! j) r) else r)"
  by (simp add: compress_loop.simps [of w j] round_regs_def Let_def split: prod.splits)

lemma compress_loop_fold:
  "j \<le> 64 \<Longrightarrow> compress_loop w j r = fold (\<lambda>j. round_regs (k ! j) (w ! j)) [j..<64] r"
proof (induction "64 - j" arbitrary: j r)
  case 0
  then have "j = 64" by simp
  then show ?case by (subst compress_loop_step) simp
next
  case (Suc n)
  then have j: "j < 64" by simp
  have u: "[j..<64] = j # [j + 1..<64]"
    using j by (simp add: upt_conv_Cons)
  have "compress_loop w j r = compress_loop w (j + 1) (round_regs (k ! j) (w ! j) r)"
    using j by (subst compress_loop_step) simp
  also have "\<dots> = fold (\<lambda>j. round_regs (k ! j) (w ! j)) [j + 1..<64] (round_regs (k ! j) (w ! j) r)"
    using Suc.hyps(2) j by (intro Suc.hyps(1)) simp_all
  finally show ?case unfolding u by simp
qed

lemma schedule_Some:
  assumes "i + 64 \<le> length message"
  shows "\<exists>w. schedule message i = Some w \<and> length w = 64"
proof -
  have "\<exists>w. load_loop message i 0 (replicate 64 0) = Some w \<and> length w = 64"
    using assms by (simp add: load_loop_closed)
  then show ?thesis by (auto simp: schedule_def length_extend_loop)
qed

lemma process_loop_Some:
  "i \<le> length message \<Longrightarrow> (length message - i) mod 64 = 0 \<Longrightarrow>
   \<exists>st'. process_loop message i st = Some st'"
proof (induction message i st rule: process_loop.induct)
  case (1 message i st)
  show ?case
  proof (cases "i < length message")
    case True
    then have "64 \<le> length message - i"
      using "1.prems" by (simp add: mod_eq_0_iff_dvd dvd_imp_le)
    then have b: "i + 64 \<le> length message" by simp
    then obtain w where w: "schedule message i = Some w"
      using schedule_Some by blast
    have m: "(length message - (i + 64)) mod 64 = 0"
      using "1.prems" b by (metis add.commute diff_diff_left mod_self mod_0 le_mod_geq \<open>64 \<le> length message - i\<close>)
    have "\<exists>st'. process_loop message (i + 64) (compress st w) = Some st'"
      using "1.IH" [OF True w b m] by simp
    then show ?thesis
      using True w by (subst process_loop.simps) simp
  next
    case False
    then show ?thesis by (subst process_loop.simps) simp
  qed
qed

lemma length_digits: "length (digits m n) = m"
  by (induction m arbitrary: n) simp_all

lemma digits_zero: "digits m 0 = replicate m (CHR ''0'')"
  by (induction m) (simp_all add: hex_digit_def replicate_append_same)

lemma setw_fill_snoc: "setw_fill (Suc m) c (xs @ [d]) = setw_fill m c xs @ [d]"
  by (simp add: setw_fill_def)

lemma setw_fill_to_hex:
  "n < 16 ^ Suc m \<Longrightarrow> setw_fill (Suc m) (CHR ''0'') (to_hex n) = digits (Suc m) n"
proof (induction m arbitrary: n)
  case 0
  then show ?case by (subst to_hex.simps) (simp add: setw_fill_def)
next
  case (Suc m)
  show ?case
  proof (cases "n < 16")
    case True
    then have "to_hex n = [hex_digit n]" by (subst to_hex.simps) simp
    then show ?thesis using True
      by (simp add: setw_fill_def digits_zero replicate_append_same)
  next
    case False
    then have t: "to_hex n = to_hex (n div 16) @ [hex_digit (n mod 16)]"
      by (subst to_hex.simps) simp
    have "n div 16 < 16 ^ Suc m"
      using Suc.prems by (simp add: less_mult_imp_div_less)
    then have "setw_fill (Suc m) (CHR ''0'') (to_hex (n div 16)) = digits (Suc m) (n div 16)"
      by (rule Suc.IH)
    then show ?thesis
      unfolding t setw_fill_snoc by simp
  qed
qed

lemma hex8_digits: "hex8 x = digits 8 (unat x)"
proof -
  have "unat x < 16 ^ Suc 7"
    using unsigned_less [of x, where ?'a = nat] by simp
  then have "setw_fill (Suc 7) (CHR ''0'') (to_hex (unat x)) = digits (Suc 7) (unat x)"
    by (rule setw_fill_to_hex)
  then show ?thesis by (simp add: hex8_def)
qed

lemma length_hex8: "length (hex8 x) = 8"
  by (simp add: hex8_digits length_digits)

lemma hex_digit_in: "d < 16 \<Longrightarrow> hex_digit d \<in> set ''0123456789abcdef''"
  unfolding hex_digit_def by (rule nth_mem) simp

lemma set_digits: "set (digits m n) \<subseteq> set ''0123456789abcdef''"
proof (induction m arbitrary: n)
  case 0
  show ?case by simp
next
  case (Suc m)
  have "hex_digit (n mod 16) \<in> set ''0123456789abcdef''"
    by (rule hex_digit_in) simp
  with Suc [of "n div 16"] show ?case by simp
qed

lemma hex_digit_inj: "a < 16 \<Longrightarrow> b < 16 \<Longrightarrow> hex_digit a = hex_digit b \<Longrightarrow> a = b"
proof -
  assume a: "a < 16" and b: "b < 16" and e: "hex_digit a = hex_digit b"
  have d: "distinct ''0123456789abcdef''" by simp
  show "a = b"
    using nth_eq_iff_index_eq [OF d, of a b] a b e by (simp add: hex_digit_def)
qed

lemma digits_inj:
  "n < 16 ^ m \<Longrightarrow> n' < 16 ^ m \<Longrightarrow> digits m n = digits m n' \<Longrightarrow> n = n'"
proof (induction m arbitrary: n n')
  case 0
  then show ?case by simp
next
  case (Suc m)
  from Suc.prems(3) have e: "digits m (n div 16) = digits m (n' div 16)"
    and h: "hex_digit (n mod 16) = hex_digit (n' mod 16)"
    by simp_all
  have "n div 16 < 16 ^ m" "n' div 16 < 16 ^ m"
    using Suc.prems(1,2) by (simp_all add: less_mult_imp_div_less)
  then have "n div 16 = n' div 16" using e by (rule Suc.IH)
  moreover have "n mod 16 = n' mod 16"
    using h by (intro hex_digit_inj) simp_all
  ultimately show ?case by (metis div_mult_mod_eq)
qed

lemma hex8_inj: "hex8 x = hex8 y \<Longrightarrow> x = y"
proof -
  assume "hex8 x = hex8 y"
  then have "digits 8 (unat x) = digits 8 (unat y)" by (simp add: hex8_digits)
  moreover have "unat x < 16 ^ 8" "unat y < 16 ^ 8"
    using unsigned_less [of x, where ?'a = nat] unsigned_less [of y, where ?'a = nat] by simp_all
  ultimately have "unat x = unat y" by (intro digits_inj [of _ 8])
  then show "x = y" by (simp add: word_unat_eq_iff)
qed

lemma render_inj: "render s = render t \<Longrightarrow> s = t"
proof -
  assume e: "render s = render t"
  have l: "length (hex8 x) = length (hex8 y)" for x y by (simp add: length_hex8)
  from e have "h0 s = h0 t \<and> h1 s = h1 t \<and> h2 s = h2 t \<and> h3 s = h3 t
      \<and> h4 s = h4 t \<and> h5 s = h5 t \<and> h6 s = h6 t \<and> h7 s = h7 t"
    unfolding render_def by (auto simp: l dest!: hex8_inj)
  then show "s = t" by simp
qed

lemma digits_byte:
  "digits (Suc (Suc m)) n
     = digits m (n div 256) @ [hex_digit (n mod 256 div 16), hex_digit (n mod 256 mod 16)]"
proof -
  have a1: "n div 16 div 16 = n div 256"
    by (simp only: div_mult2_eq [symmetric]) simp
  have a3: "n mod 16 = n mod 256 mod 16"
    by (simp add: mod_mod_cancel)
  have "n mod 256 = n mod (16 * 16)" by simp
  also have "\<dots> = n mod 16 + 16 * (n div 16 mod 16)" by (simp only: mod_mult2_eq)
  finally have a2: "n div 16 mod 16 = n mod 256 div 16" by simp
  show ?thesis
    by (simp only: digits.simps a1 a2 a3 [symmetric]) simp
qed

lemma digits_8:
  "digits 8 n = [hex_digit (n div 2 ^ 24 mod 256 div 16), hex_digit (n div 2 ^ 24 mod 256 mod 16),
     hex_digit (n div 2 ^ 16 mod 256 div 16), hex_digit (n div 2 ^ 16 mod 256 mod 16),
     hex_digit (n div 2 ^ 8 mod 256 div 16), hex_digit (n div 2 ^ 8 mod 256 mod 16),
     hex_digit (n mod 256 div 16), hex_digit (n mod 256 mod 16)]"
proof -
  have e: "(8::nat) = Suc (Suc (Suc (Suc (Suc (Suc (Suc (Suc 0)))))))"
    by simp
  have f: "n div 65536 div 256 = n div 16777216" "n div 256 div 256 = n div 65536"
    by (simp_all only: div_mult2_eq [symmetric]) simp_all
  show ?thesis
    unfolding e by (simp only: digits_byte digits.simps(1)) (simp add: f)
qed

lemma hex8_bytes: "hex8 x = concat (map hex_byte (be_bytes x))"
proof -
  have b: "unat (ucast (drop_bit m x) :: u8) = unat x div 2 ^ m mod 256" for m
    by (simp only: unsigned_ucast_eq unat_drop_bit_eq) (simp add: drop_bit_eq_div take_bit_eq_mod)
  have c: "unat (ucast x :: u8) = unat x mod 256"
    by (simp add: unsigned_ucast_eq take_bit_eq_mod)
  show ?thesis
    by (simp add: hex8_digits digits_8 be_bytes_def hex_byte_def b c)
qed

lemma bits_cond: "(m * 8 + 64) mod 512 = 0 \<longleftrightarrow> m mod 64 = 56" for m :: nat
proof -
  have "(m * 8 + 64) mod 512 = (8 * (m + 8)) mod (8 * 64)" by (simp add: algebra_simps)
  also have "\<dots> = 8 * ((m + 8) mod 64)" by (rule mult_mod_right [symmetric])
  finally have f: "(m * 8 + 64) mod 512 = 8 * ((m + 8) mod 64)" .
  have g: "(m + 8) mod 64 = (m mod 64 + 8) mod 64" by (simp add: mod_add_left_eq)
  have "m mod 64 < 64" by simp
  then have "(m mod 64 + 8) mod 64 = 0 \<longleftrightarrow> m mod 64 = 56" by arith
  with f g show ?thesis by simp
qed

lemma zero_count_minimal:
  assumes "z < zero_count m"
  shows "(m + z) mod 64 \<noteq> 56"
proof -
  define r where "r = m mod 64"
  have b: "r < 64" by (simp add: r_def)
  have z: "z < (if r \<le> 56 then 56 else 120) - r"
    using assms by (simp add: zero_count_def r_def)
  have "(m + z) mod 64 = (r + z) mod 64"
    by (simp add: r_def mod_add_left_eq)
  moreover have "(r + z) mod 64 \<noteq> 56"
  proof (cases "r \<le> 56")
    case True
    with z have "r + z < 56" by simp
    then show ?thesis by simp
  next
    case False
    show ?thesis
    proof (cases "r + z < 64")
      case True
      with False show ?thesis by simp
    next
      case ge: False
      then have "(r + z) mod 64 = (r + z - 64) mod 64"
        by (simp add: le_mod_geq)
      also have "r + z - 64 < 56" using z False by simp
      then have "(r + z - 64) mod 64 = r + z - 64" by simp
      finally show ?thesis using \<open>r + z - 64 < 56\<close> by simp
    qed
  qed
  ultimately show ?thesis by simp
qed

lemma length_pad_blocks:
  "length (pad input)
     = 64 * (length input div 64 + (if length input mod 64 \<le> 55 then 1 else 2))"
proof -
  define q r where "q = length input div 64" and "r = length input mod 64"
  have n: "length input = 64 * q + r" and b: "r < 64"
    by (simp_all add: q_def r_def)
  have s: "Suc (length input) mod 64 = (if r = 63 then 0 else Suc r)"
    by (simp add: mod_Suc r_def)
  have "length (pad input) = 64 * q + (r + 1 + zero_count (Suc (length input)) + 8)"
    by (simp add: length_pad n)
  also have "zero_count (Suc (length input))
      = (if (if r = 63 then 0 else Suc r) \<le> 56 then 56 else 120) - (if r = 63 then 0 else Suc r)"
    by (simp only: zero_count_def s)
  also have "64 * q + (r + 1 + ((if (if r = 63 then 0 else Suc r) \<le> 56 then 56 else 120)
        - (if r = 63 then 0 else Suc r)) + 8)
      = 64 * (q + (if r \<le> 55 then 1 else 2))"
    using b by (simp split: if_splits)
  finally show ?thesis by (simp only: q_def r_def)
qed

lemma ucast_and_255: "(ucast (w AND 0xFF) :: u8) = ucast w" for w :: u64
proof (rule bit_word_eqI)
  fix n assume "n < LENGTH(8)"
  then have n: "n < 8" by simp
  have m: "(mask 8 :: u64) = 0xFF" by (simp add: mask_eq_exp_minus_1)
  have "bit (mask 8 :: u64) n"
    using n by (simp only: bit_mask_iff) (simp add: possible_bit_word)
  then have "bit (0xFF :: u64) n" by (simp only: m)
  then show "bit (ucast (w AND 0xFF) :: u8) n = bit (ucast w :: u8) n"
    by (simp add: bit_word_ucast_iff bit_and_iff)
qed

lemma unat_length_byte:
  "unat (ucast (drop_bit s w AND 0xFF) :: u8) = unat w div 2 ^ s mod 256" for w :: u64
  unfolding ucast_and_255
  by (simp only: unsigned_ucast_eq unat_drop_bit_eq) (simp add: drop_bit_eq_div take_bit_eq_mod)

lemma unat_length_byte_0:
  "unat (ucast (w AND 0xFF) :: u8) = unat w mod 256" for w :: u64
  using unat_length_byte [of 0 w] by simp

lemma upt_8: "[0..<8] = [0, 1, 2, 3, 4, 5, 6, 7]"
  by (simp add: upt_rec)

lemma be_nat_length_bytes: "be_nat (length_bytes n) = (n * 8) mod 2 ^ 64"
proof -
  define v where "v = unat (word_of_nat (n * 8) :: u64)"
  have v: "v < 18446744073709551616"
    unfolding v_def using unsigned_less [of "word_of_nat (n * 8) :: u64", where ?'a = nat] by simp
  have g: "x div (m * 256) * 256 + x div m mod 256 = x div m" for x m :: nat
    by (simp add: div_mult2_eq)
  have h7: "v div 72057594037927936 mod 256 = v div 72057594037927936"
    using v by (simp add: less_mult_imp_div_less)
  have h6: "v div 72057594037927936 * 256 + v div 281474976710656 mod 256 = v div 281474976710656"
    using g [of v 281474976710656] by simp
  have h5: "v div 281474976710656 * 256 + v div 1099511627776 mod 256 = v div 1099511627776"
    using g [of v 1099511627776] by simp
  have h4: "v div 1099511627776 * 256 + v div 4294967296 mod 256 = v div 4294967296"
    using g [of v 4294967296] by simp
  have h3: "v div 4294967296 * 256 + v div 16777216 mod 256 = v div 16777216"
    using g [of v 16777216] by simp
  have h2: "v div 16777216 * 256 + v div 65536 mod 256 = v div 65536"
    using g [of v 65536] by simp
  have h1: "v div 65536 * 256 + v div 256 mod 256 = v div 256"
    using g [of v 256] by simp
  have h0: "v div 256 * 256 + v mod 256 = v"
    by simp
  have bytes: "map unat (length_bytes n) = map (\<lambda>i. v div 2 ^ (56 - i * 8) mod 256) [0..<8]"
    unfolding length_bytes_def v_def by (simp only: map_map o_def unat_length_byte)
  have "be_nat (length_bytes n) = foldl (\<lambda>a b. a * 256 + b) 0 (map unat (length_bytes n))"
    by (simp add: be_nat_def foldl_map)
  also have "\<dots> = (((((((v div 72057594037927936 mod 256) * 256 + v div 281474976710656 mod 256) * 256 + v div 1099511627776 mod 256) * 256 + v div 4294967296 mod 256) * 256 + v div 16777216 mod 256) * 256 + v div 65536 mod 256) * 256 + v div 256 mod 256) * 256 + v mod 256"
    unfolding bytes upt_8 by simp
  also have "\<dots> = v"
    by (simp only: h7 h6 h5 h4 h3 h2 h1 h0)
  finally have "be_nat (length_bytes n) = v" .
  also have "v = (n * 8) mod 2 ^ LENGTH(64)"
    unfolding v_def by (rule unat_of_nat)
  finally show ?thesis by simp
qed

lemma length_length_bytes: "length (length_bytes n) = 8"
  by (simp add: length_bytes_def)

text \<open>
  Claim C4. The padding appends the byte \<^verbatim>\<open>0x80\<close>, then the least number of zero bytes for
  which the length in bits plus 64 is a multiple of 512, then eight bytes that hold the bit
  length of the input big-endian (for an input below \<open>2 ^ 61\<close> bytes, whose bit length fits
  the 64-bit counter). The padded message is one chunk longer than the full chunks of the
  input when at most 55 bytes of the input remain after them, and two chunks longer
  otherwise.
\<close>

theorem pad_layout:
  "\<exists>z. pad input = map of_char input @ [0x80] @ replicate z 0 @ length_bytes (length input)
     \<and> ((length input + 1 + z) * 8 + 64) mod 512 = 0
     \<and> (\<forall>z'<z. ((length input + 1 + z') * 8 + 64) mod 512 \<noteq> 0)
     \<and> length (length_bytes (length input)) = 8
     \<and> (length input < 2 ^ 61 \<longrightarrow> be_nat (length_bytes (length input)) = length input * 8)
     \<and> length (pad input)
         = 64 * (length input div 64 + (if length input mod 64 \<le> 55 then 1 else 2))"
proof (intro exI conjI allI impI)
  let ?z = "zero_count (Suc (length input))"
  show "pad input = map of_char input @ [0x80] @ replicate ?z 0 @ length_bytes (length input)"
    by (rule pad_eq)
  show "((length input + 1 + ?z) * 8 + 64) mod 512 = 0"
    using zero_count_mod [of "Suc (length input)"] by (simp only: bits_cond) simp
  show "((length input + 1 + z') * 8 + 64) mod 512 \<noteq> 0" if "z' < ?z" for z'
    using zero_count_minimal [OF that] by (simp only: bits_cond) simp
  show "length (length_bytes (length input)) = 8"
    by (rule length_length_bytes)
  show "be_nat (length_bytes (length input)) = length input * 8" if "length input < 2 ^ 61"
    using that by (simp add: be_nat_length_bytes)
  show "length (pad input)
      = 64 * (length input div 64 + (if length input mod 64 \<le> 55 then 1 else 2))"
    by (rule length_pad_blocks)
qed

lemma ROTRIGHT_rotr: "bits \<le> 32 \<Longrightarrow> ROTRIGHT x bits = rotr bits x"
  unfolding rotr_def
proof (rule bit_word_eqI)
  fix n assume b: "bits \<le> 32" and n: "n < LENGTH(32)"
  show "bit (ROTRIGHT x bits) n = bit (word_rotr bits x) n"
  proof (cases "n + bits < 32")
    case True
    then show ?thesis using n
      by (auto simp: ROTRIGHT_def bit_or_iff bit_drop_bit_eq bit_push_bit_iff bit_word_rotr_iff add.commute)
  next
    case False
    then have m: "(n + bits) mod 32 = n - (32 - bits)" using n b
      by (simp add: mod_if)
    have "\<not> bit x (bits + n)" using False by (auto dest: bit_imp_le_length)
    then show ?thesis using n b False m
      by (auto simp: ROTRIGHT_def bit_or_iff bit_drop_bit_eq bit_push_bit_iff bit_word_rotr_iff)
  qed
qed

lemma SIG0_sigma0: "SIG0 x = sigma0 x"
  by (simp add: SIG0_def sigma0_def ROTRIGHT_rotr)

lemma SIG1_sigma1: "SIG1 x = sigma1 x"
  by (simp add: SIG1_def sigma1_def ROTRIGHT_rotr)

lemma round_regs_spec: "round_regs kj wj = spec_round kj wj"
  by (rule ext)
    (simp add: round_regs_def spec_round_def EP0_def EP1_def CH_def MAJ_def ROTRIGHT_rotr
      split: prod.splits)

lemma be32_unat:
  fixes b0 b1 b2 b3 :: u8
  shows "unat (push_bit 24 (ucast b0) OR push_bit 16 (ucast b1) OR push_bit 8 (ucast b2) OR (ucast b3 :: u32))
     = 2 ^ 24 * unat b0 + 2 ^ 16 * unat b1 + 2 ^ 8 * unat b2 + unat b3"
proof -
  have d3: "push_bit 8 (ucast b2 :: u32) OR ucast b3 = push_bit 8 (ucast b2) + ucast b3"
    by (rule disjunctive_add [symmetric]) (auto simp: bit_push_bit_iff bit_word_ucast_iff)
  have d2: "push_bit 16 (ucast b1 :: u32) OR (push_bit 8 (ucast b2) OR ucast b3)
      = push_bit 16 (ucast b1) + (push_bit 8 (ucast b2) OR ucast b3)"
    by (rule disjunctive_add [symmetric]) (auto simp: bit_or_iff bit_push_bit_iff bit_word_ucast_iff)
  have d1: "push_bit 24 (ucast b0 :: u32) OR (push_bit 16 (ucast b1) OR (push_bit 8 (ucast b2) OR ucast b3))
      = push_bit 24 (ucast b0) + (push_bit 16 (ucast b1) OR (push_bit 8 (ucast b2) OR ucast b3))"
    by (rule disjunctive_add [symmetric]) (auto simp: bit_or_iff bit_push_bit_iff bit_word_ucast_iff)
  have lt: "unat b < 256" for b :: u8
    using unsigned_less [of b, where ?'a = nat] by simp
  have "push_bit 24 (ucast b0) OR push_bit 16 (ucast b1) OR push_bit 8 (ucast b2) OR (ucast b3 :: u32)
      = push_bit 24 (ucast b0) + (push_bit 16 (ucast b1) + (push_bit 8 (ucast b2) + ucast b3))"
    by (simp only: d1) (simp only: d2, simp only: d3)
  also have "\<dots> = word_of_nat (2 ^ 24 * unat b0 + 2 ^ 16 * unat b1 + 2 ^ 8 * unat b2 + unat b3)"
    by (simp add: push_bit_eq_mult)
  finally have "push_bit 24 (ucast b0) OR push_bit 16 (ucast b1) OR push_bit 8 (ucast b2) OR (ucast b3 :: u32)
      = word_of_nat (2 ^ 24 * unat b0 + 2 ^ 16 * unat b1 + 2 ^ 8 * unat b2 + unat b3)" .
  moreover have "2 ^ 24 * unat b0 + 2 ^ 16 * unat b1 + 2 ^ 8 * unat b2 + unat b3 < 2 ^ 32"
    using lt [of b0] lt [of b1] lt [of b2] lt [of b3] by simp
  ultimately show ?thesis
    by (simp only: unat_of_nat) simp
qed

lemma unat_word_at:
  "unat (word_at message n)
     = 2 ^ 24 * unat (message ! n) + 2 ^ 16 * unat (message ! (n + 1))
       + 2 ^ 8 * unat (message ! (n + 2)) + unat (message ! (n + 3))"
  unfolding word_at_def by (rule be32_unat)

lemma schedule_closed:
  assumes "i + 64 \<le> length message"
  shows "schedule message i
     = Some (extend_loop 16 (map (\<lambda>t. word_at message (i + t * 4)) [0..<16] @ replicate 48 0))"
  using assms by (simp add: schedule_def load_loop_closed)

text \<open>
  The contents \<^verbatim>\<open>w[64]\<close> has before the loops do not reach the schedule: any array of 64
  words gives the schedule that the zeros give.
\<close>

lemma extend_loop_take:
  assumes "length v = 64" and "length w = 64" and "take 16 v = take 16 w"
  shows "extend_loop 16 v = extend_loop 16 w"
proof (rule nth_equalityI)
  show "length (extend_loop 16 v) = length (extend_loop 16 w)"
    using assms by (simp add: length_extend_loop)
next
  fix t assume "t < length (extend_loop 16 v)"
  then have t: "t < 64" using assms by (simp add: length_extend_loop)
  then show "extend_loop 16 v ! t = extend_loop 16 w ! t"
  proof (induction t rule: less_induct)
    case (less t)
    show ?case
    proof (cases "t < 16")
      case True
      then have "v ! t = w ! t"
        using arg_cong [OF assms(3), of "\<lambda>xs. xs ! t"] by simp
      then show ?thesis using True by (simp add: extend_loop_below)
    next
      case False
      then have b: "16 \<le> t" by simp
      have "extend_loop 16 v ! (t - n) = extend_loop 16 w ! (t - n)" if "0 < n" for n
        using that b less.prems by (intro less.IH) simp_all
      then show ?thesis
        using extend_loop_rec [OF assms(1) order_refl b less.prems]
          extend_loop_rec [OF assms(2) order_refl b less.prems]
        by simp
    qed
  qed
qed

lemma schedule_init_irrelevant:
  assumes "length w0 = 64" and "i + 64 \<le> length message"
  shows "do { w \<leftarrow> load_loop message i 0 w0; Some (extend_loop 16 w) } = schedule message i"
proof -
  have "extend_loop 16 (map (\<lambda>t. word_at message (i + t * 4)) [0..<16] @ drop 16 w0)
      = extend_loop 16 (map (\<lambda>t. word_at message (i + t * 4)) [0..<16] @ replicate 48 0)"
    using assms(1) by (intro extend_loop_take) simp_all
  then show ?thesis
    using assms by (simp add: schedule_def load_loop_closed)
qed

text \<open>
  Claim C5. For a chunk of 64 bytes at offset \<open>i\<close> the schedule exists and has 64 words;
  word \<open>j < 16\<close> is the big-endian value of bytes \<open>4 j .. 4 j + 3\<close> of the chunk, and every
  word \<open>16 \<le> j < 64\<close> is \<open>SIG1 (w[j-2]) + w[j-7] + SIG0 (w[j-15]) + w[j-16]\<close> modulo \<open>2 ^ 32\<close>,
  where \<open>SIG0\<close> and \<open>SIG1\<close> are built from the 32-bit right rotation and the logical shift.
\<close>

theorem schedule_words:
  assumes "i + 64 \<le> length message"
  shows "\<exists>w. schedule message i = Some w \<and> length w = 64
     \<and> (\<forall>j<16. unat (w ! j)
           = 2 ^ 24 * unat (message ! (i + j * 4)) + 2 ^ 16 * unat (message ! (i + j * 4 + 1))
             + 2 ^ 8 * unat (message ! (i + j * 4 + 2)) + unat (message ! (i + j * 4 + 3)))
     \<and> (\<forall>j. 16 \<le> j \<and> j < 64 \<longrightarrow>
           w ! j = sigma1 (w ! (j - 2)) + w ! (j - 7) + sigma0 (w ! (j - 15)) + w ! (j - 16))"
proof -
  let ?init = "map (\<lambda>t. word_at message (i + t * 4)) [0..<16] @ replicate 48 0"
  let ?fin = "extend_loop 16 ?init"
  have l0: "length ?init = 64" by simp
  have a: "schedule message i = Some ?fin"
    using assms by (rule schedule_closed)
  have b: "length ?fin = 64"
    by (simp add: length_extend_loop)
  have c: "unat (?fin ! j)
      = 2 ^ 24 * unat (message ! (i + j * 4)) + 2 ^ 16 * unat (message ! (i + j * 4 + 1))
        + 2 ^ 8 * unat (message ! (i + j * 4 + 2)) + unat (message ! (i + j * 4 + 3))"
    if "j < 16" for j
  proof -
    have "?fin ! j = ?init ! j" using that by (rule extend_loop_below)
    also have "\<dots> = word_at message (i + j * 4)"
      using that by (simp add: nth_append)
    finally show ?thesis by (simp only: unat_word_at)
  qed
  have d: "?fin ! j = sigma1 (?fin ! (j - 2)) + ?fin ! (j - 7) + sigma0 (?fin ! (j - 15)) + ?fin ! (j - 16)"
    if "16 \<le> j \<and> j < 64" for j
    using extend_loop_rec [OF l0 order_refl, of j] that
    by (simp only: SIG0_sigma0 SIG1_sigma1)
  show ?thesis
    using a b c d by blast
qed

text \<open>
  Claim C6. The compression of one chunk starts the working variables at the current
  state, applies the round of the specification exactly 64 times, for \<open>j = 0 .. 63\<close> with
  \<open>k[j]\<close> and \<open>w[j]\<close>, and adds the result to the state component-wise modulo \<open>2 ^ 32\<close>.
\<close>

theorem compress_rounds:
  "compress st w
     = (case fold (\<lambda>j. spec_round (k ! j) (w ! j)) [0..<64]
               (h0 st, h1 st, h2 st, h3 st, h4 st, h5 st, h6 st, h7 st) of
          (a, b, c, d, e, f, g, h) \<Rightarrow>
            \<lparr>h0 = h0 st + a, h1 = h1 st + b, h2 = h2 st + c, h3 = h3 st + d,
             h4 = h4 st + e, h5 = h5 st + f, h6 = h6 st + g, h7 = h7 st + h\<rparr>)"
proof -
  have "compress_loop w 0 r = fold (\<lambda>j. spec_round (k ! j) (w ! j)) [0..<64] r" for r
    using compress_loop_fold [of 0 w r] by (simp only: round_regs_spec)
  then show ?thesis by (simp only: compress_def)
qed

lemma pad_length_pos: "0 < length (pad input)"
  by (simp add: length_pad)

lemma sha256_Some: "\<exists>st'. sha256 st input = Some (render st', st')"
proof -
  have "(length (pad input) - 0) mod 64 = 0"
    by (simp add: length_pad_mod)
  then obtain st' where "process_loop (pad input) 0 st = Some st'"
    using process_loop_Some [of 0 "pad input" st] by auto
  then show ?thesis by (simp add: sha256_def)
qed

lemma length_render: "length (render st) = 64"
  by (simp add: render_def length_hex8)

lemma set_render: "set (render st) \<subseteq> set ''0123456789abcdef''"
  unfolding render_def hex8_digits using set_digits by (simp del: set_simps list.set)

lemma render_serialize: "render st = concat (map hex_byte (serialize st))"
  by (simp add: render_def serialize_def hex8_bytes)

lemma length_serialize: "length (serialize st) = 32"
  by (simp add: serialize_def be_bytes_def)

text \<open>
  Claim C7. For every input and every starting state the call returns a digest of exactly
  64 characters, all lowercase hexadecimal digits: eight characters for each register, zero
  padded, in the order \<^verbatim>\<open>h0 .. h7\<close>; it is the hexadecimal rendering of the 32 bytes of the
  big-endian serialization of the registers.
\<close>

theorem digest_format:
  "\<exists>d st'. sha256 st input = Some (d, st')
     \<and> length d = 64
     \<and> set d \<subseteq> set ''0123456789abcdef''
     \<and> d = hex8 (h0 st') @ hex8 (h1 st') @ hex8 (h2 st') @ hex8 (h3 st')
          @ hex8 (h4 st') @ hex8 (h5 st') @ hex8 (h6 st') @ hex8 (h7 st')
     \<and> length (hex8 (h0 st')) = 8 \<and> length (hex8 (h1 st')) = 8 \<and> length (hex8 (h2 st')) = 8
     \<and> length (hex8 (h3 st')) = 8 \<and> length (hex8 (h4 st')) = 8 \<and> length (hex8 (h5 st')) = 8
     \<and> length (hex8 (h6 st')) = 8 \<and> length (hex8 (h7 st')) = 8
     \<and> d = concat (map hex_byte (serialize st'))
     \<and> length (serialize st') = 32"
proof -
  obtain st' where s: "sha256 st input = Some (render st', st')"
    using sha256_Some by blast
  have "render st' = hex8 (h0 st') @ hex8 (h1 st') @ hex8 (h2 st') @ hex8 (h3 st')
          @ hex8 (h4 st') @ hex8 (h5 st') @ hex8 (h6 st') @ hex8 (h7 st')"
    by (simp only: render_def)
  with s show ?thesis
    by (intro exI [of _ "render st'"] exI [of _ st'] conjI length_render set_render
        render_serialize length_serialize length_hex8)
qed

text \<open>
  Claim C9. The padded message has a length that is a nonzero multiple of 64, every read
  \<^verbatim>\<open>message[i + j*4 + c]\<close> of the chunk loop is inside the vector, and \<^verbatim>\<open>sha256\<close> returns a
  digest for every input and starting state.
\<close>

theorem sha256_total:
  "(\<exists>n. 0 < n \<and> length (pad input) = 64 * n)
   \<and> (\<forall>i j c. i < length (pad input) \<and> i mod 64 = 0 \<and> j < 16 \<and> c < 4
        \<longrightarrow> i + j * 4 + c < length (pad input)
          \<and> byte_at (pad input) (i + j * 4 + c) = Some (pad input ! (i + j * 4 + c)))
   \<and> (\<exists>d st'. sha256 st input = Some (d, st'))"
proof (intro conjI allI impI)
  show "\<exists>n. 0 < n \<and> length (pad input) = 64 * n"
    using length_pad_blocks [of input] by (intro exI [of _ "length input div 64 + (if length input mod 64 \<le> 55 then 1 else 2)"]) simp
next
  fix i j c :: nat
  assume a: "i < length (pad input) \<and> i mod 64 = 0 \<and> j < 16 \<and> c < 4"
  obtain n where n: "length (pad input) = 64 * n"
    using length_pad_blocks by blast
  from a obtain q where q: "i = 64 * q" by (auto simp: mod_eq_0_iff_dvd)
  from a n q have "q < n" by simp
  then have "64 * q + 64 \<le> 64 * n" by simp
  then show "i + j * 4 + c < length (pad input)"
    using a n q by simp
  then show "byte_at (pad input) (i + j * 4 + c) = Some (pad input ! (i + j * 4 + c))"
    by (simp add: byte_at_def)
next
  show "\<exists>d st'. sha256 st input = Some (d, st')"
    using sha256_Some by blast
qed

text \<open>
  Claim C10. When a call returns, the globals hold the state the chunk loop ended in; the
  returned string is the rendering of these registers and of no other register values; and
  a following call in the same process starts from this state, not from the initial values.
\<close>

theorem sha256_leaves_state:
  assumes "sha256 st input = Some (digest, st')"
  shows "process_loop (pad input) 0 st = Some st'
     \<and> render st' = digest
     \<and> (\<forall>s. render s = digest \<longrightarrow> s = st')
     \<and> calls st [input, next_input]
         = do { (d, s) \<leftarrow> sha256 st' next_input; Some ([digest, d], s) }"
proof -
  from assms have p: "process_loop (pad input) 0 st = Some st'" and r: "render st' = digest"
    by (auto simp: sha256_def split: bind_splits)
  have "s = st'" if "render s = digest" for s
    using that r by (intro render_inj) simp
  moreover have "calls st [input, next_input]
         = do { (d, s) \<leftarrow> sha256 st' next_input; Some ([digest, d], s) }"
    using assms by (cases "sha256 st' next_input") (auto split: prod.splits)
  ultimately show ?thesis using p r by blast
qed

section \<open>Streaming equivalence\<close>

lemma word_at_chunk:
  assumes "i + 64 \<le> length message" and "t < 16"
  shows "word_at (take 64 (drop i message)) (0 + t * 4) = word_at message (i + t * 4)"
  using assms by (simp add: word_at_def add.assoc)

lemma schedule_chunk:
  assumes "i + 64 \<le> length message"
  shows "schedule message i = schedule (take 64 (drop i message)) 0"
proof -
  have "map (\<lambda>t. word_at (take 64 (drop i message)) (0 + t * 4)) [0..<16]
      = map (\<lambda>t. word_at message (i + t * 4)) [0..<16]"
    using assms by (intro map_cong refl word_at_chunk) simp_all
  moreover have "0 + 64 \<le> length (take 64 (drop i message))"
    using assms by simp
  ultimately show ?thesis
    using assms by (simp only: schedule_closed)
qed

lemma absorb_block_chunk:
  assumes "i + 64 \<le> length message" and "schedule message i = Some w"
  shows "absorb_block st (take 64 (drop i message)) = compress st w"
  using assms by (simp add: absorb_block_def schedule_chunk [symmetric])

lemma run_blocks_short: "length xs < 64 \<Longrightarrow> run_blocks st xs = st"
  by (subst run_blocks.simps) simp

lemma run_blocks_step:
  "64 \<le> length xs \<Longrightarrow> run_blocks st xs = run_blocks (absorb_block st (take 64 xs)) (drop 64 xs)"
  by (subst run_blocks.simps) simp

lemma process_loop_run_blocks:
  "i \<le> length message \<Longrightarrow> (length message - i) mod 64 = 0 \<Longrightarrow>
   process_loop message i st = Some (run_blocks st (drop i message))"
proof (induction message i st rule: process_loop.induct)
  case (1 message i st)
  show ?case
  proof (cases "i < length message")
    case True
    then have ge: "64 \<le> length message - i"
      using "1.prems" by (simp add: mod_eq_0_iff_dvd dvd_imp_le)
    then have b: "i + 64 \<le> length message" by simp
    then obtain w where w: "schedule message i = Some w"
      using schedule_Some by blast
    have m: "(length message - (i + 64)) mod 64 = 0"
      using "1.prems" ge by (metis diff_diff_left le_mod_geq)
    have "process_loop message i st = process_loop message (i + 64) (compress st w)"
      using True w by (subst process_loop.simps) simp
    also have "\<dots> = Some (run_blocks (compress st w) (drop (i + 64) message))"
      using "1.IH" [OF True w b m] .
    also have "drop (i + 64) message = drop 64 (drop i message)"
      by (simp add: add.commute)
    also have "compress st w = absorb_block st (take 64 (drop i message))"
      using absorb_block_chunk [OF b w] by simp
    also have "run_blocks (absorb_block st (take 64 (drop i message))) (drop 64 (drop i message))
        = run_blocks st (drop i message)"
      using ge by (simp add: run_blocks_step [of "drop i message"])
    finally show ?thesis .
  next
    case False
    then show ?thesis
      using "1.prems" by (subst process_loop.simps) (simp add: run_blocks_short)
  qed
qed

lemma run_blocks_append:
  "length xs mod 64 = 0 \<Longrightarrow> run_blocks st (xs @ ys) = run_blocks (run_blocks st xs) ys"
proof (induction st xs rule: run_blocks.induct)
  case (1 st xs)
  show ?case
  proof (cases "64 \<le> length xs")
    case True
    have m: "length (drop 64 xs) mod 64 = 0"
      using "1.prems" True by (simp add: le_mod_geq)
    have "run_blocks st (xs @ ys)
        = run_blocks (absorb_block st (take 64 (xs @ ys))) (drop 64 (xs @ ys))"
      using True by (intro run_blocks_step) simp
    also have "\<dots> = run_blocks (absorb_block st (take 64 xs)) (drop 64 xs @ ys)"
      using True by simp
    also have "\<dots> = run_blocks (run_blocks (absorb_block st (take 64 xs)) (drop 64 xs)) ys"
      using "1.IH" [OF True m] .
    also have "run_blocks (absorb_block st (take 64 xs)) (drop 64 xs) = run_blocks st xs"
      using True by (simp add: run_blocks_step)
    finally show ?thesis .
  next
    case False
    with "1.prems" have "xs = []" by (cases xs) (auto simp: mod_less)
    then show ?thesis by (simp add: run_blocks_short)
  qed
qed

lemma hstate_emit_blocks: "hstate (emit_blocks h) = run_blocks (hstate h) (buffer h)"
proof (induction h rule: emit_blocks.induct)
  case (1 h)
  show ?case
  proof (cases "64 \<le> length (buffer h)")
    case True
    then show ?thesis
      using 1 by (subst emit_blocks.simps) (simp add: run_blocks_step [of "buffer h"])
  next
    case False
    then show ?thesis
      by (subst emit_blocks.simps) (simp add: run_blocks_short)
  qed
qed

lemma absorbedD:
  assumes "absorbed h x"
  shows "\<not> finalized h" and "bit_count h = word_of_nat (length x * 8)"
    and "\<exists>pre. x = pre @ buffer h \<and> length pre mod 64 = 0 \<and> hstate h = run_blocks IV pre"
  using assms by (simp_all add: absorbed_def)

lemma emit_blocks_absorbed: "absorbed h x \<Longrightarrow> absorbed (emit_blocks h) x \<and> length (buffer (emit_blocks h)) < 64"
proof (induction h rule: emit_blocks.induct)
  case (1 h)
  show ?case
  proof (cases "64 \<le> length (buffer h)")
    case True
    let ?h = "h\<lparr>hstate := absorb_block (hstate h) (take 64 (buffer h)), buffer := drop 64 (buffer h)\<rparr>"
    note nf = absorbedD(1) [OF "1.prems"] and bc = absorbedD(2) [OF "1.prems"]
    from absorbedD(3) [OF "1.prems"] obtain pre where pre: "x = pre @ buffer h"
      "length pre mod 64 = 0" "hstate h = run_blocks IV pre"
      by auto
    have "run_blocks IV (pre @ take 64 (buffer h)) = run_blocks (hstate h) (take 64 (buffer h))"
      using pre by (simp add: run_blocks_append)
    also have "\<dots> = absorb_block (hstate h) (take 64 (buffer h))"
      using True by (simp add: run_blocks_step run_blocks_short)
    finally have r: "run_blocks IV (pre @ take 64 (buffer h)) = absorb_block (hstate h) (take 64 (buffer h))" .
    have l: "length (pre @ take 64 (buffer h)) mod 64 = 0"
      using True pre(2) by (simp add: min_absorb2 mod_add_left_eq [symmetric])
    have "x = (pre @ take 64 (buffer h)) @ drop 64 (buffer h)"
      using pre(1) by simp
    then have "absorbed ?h x"
      unfolding absorbed_def using nf bc r l by (intro conjI exI [of _ "pre @ take 64 (buffer h)"]) simp_all
    then have "absorbed (emit_blocks ?h) x \<and> length (buffer (emit_blocks ?h)) < 64"
      by (rule "1.IH" [OF True])
    moreover have "emit_blocks h = emit_blocks ?h"
      using True by (subst emit_blocks.simps) simp
    ultimately show ?thesis by simp
  next
    case False
    then have "emit_blocks h = h" by (subst emit_blocks.simps) simp
    then show ?thesis using False "1.prems" by simp
  qed
qed

lemma absorb_absorbed:
  assumes "absorbed h x"
  shows "\<exists>h'. absorb bytes h = Inr h' \<and> absorbed h' (x @ bytes)"
proof -
  let ?h = "h\<lparr>buffer := buffer h @ bytes, bit_count := bit_count h + 8 * word_of_nat (length bytes)\<rparr>"
  note nf = absorbedD(1) [OF assms] and bc = absorbedD(2) [OF assms]
  from absorbedD(3) [OF assms] obtain pre where pre: "x = pre @ buffer h"
    "length pre mod 64 = 0" "hstate h = run_blocks IV pre"
    by auto
  have "bit_count h + 8 * word_of_nat (length bytes) = word_of_nat (length (x @ bytes) * 8)"
    using bc by (simp add: algebra_simps)
  then have "absorbed ?h (x @ bytes)"
    unfolding absorbed_def using pre nf by (intro conjI exI [of _ pre]) simp_all
  then have "absorbed (emit_blocks ?h) (x @ bytes)"
    using emit_blocks_absorbed by blast
  then show ?thesis using nf by (simp add: absorb_def)
qed

lemma absorb_all_absorbed:
  "absorbed h x \<Longrightarrow> \<exists>h'. absorb_all cs h = Inr h' \<and> absorbed h' (x @ concat cs)"
proof (induction cs arbitrary: h x)
  case Nil
  then show ?case by simp
next
  case (Cons c cs)
  from absorb_absorbed [OF Cons.prems, of c] obtain h1 where
    h1: "absorb c h = Inr h1" "absorbed h1 (x @ c)" by blast
  from Cons.IH [OF h1(2)] obtain h' where "absorb_all cs h1 = Inr h'" "absorbed h' ((x @ c) @ concat cs)"
    by blast
  then show ?case using h1(1) by simp
qed

lemma absorbed_new: "absorbed new []"
  by (simp add: absorbed_def new_def run_blocks_short)

lemma zero_count_cong: "m mod 64 = n mod 64 \<Longrightarrow> zero_count m = zero_count n"
  by (simp add: zero_count_def)

lemma count_bytes_length: "count_bytes (word_of_nat (n * 8)) = length_bytes n"
  by (simp add: count_bytes_def length_bytes_def upt_8 ucast_and_255)

lemma sha256_run_blocks:
  "sha256 st input = Some (render (run_blocks st (pad input)), run_blocks st (pad input))"
proof -
  have "process_loop (pad input) 0 st = Some (run_blocks st (drop 0 (pad input)))"
    by (rule process_loop_run_blocks) (simp_all add: length_pad_mod)
  then show ?thesis by (simp add: sha256_def)
qed

lemma finalize_absorbed:
  assumes "absorbed h (map of_char input)"
  shows "\<exists>h'. finalize h = Inr (serialize (run_blocks IV (pad input)), h')"
proof -
  note nf = absorbedD(1) [OF assms] and bc = absorbedD(2) [OF assms]
  from absorbedD(3) [OF assms] obtain pre where pre: "map of_char input = pre @ buffer h"
    "length pre mod 64 = 0" "hstate h = run_blocks IV pre"
    by auto
  let ?padded = "pad_zeros (buffer h @ [0x80]) @ count_bytes (bit_count h)"
  have len: "length input = length pre + length (buffer h)"
    using arg_cong [OF pre(1), of length] by simp
  have "Suc (length input) mod 64 = Suc (length (buffer h)) mod 64"
    unfolding len using pre(2) by (metis add_Suc_right mod_add_left_eq add_0)
  then have z: "zero_count (Suc (length input)) = zero_count (Suc (length (buffer h)))"
    by (rule zero_count_cong)
  have "bit_count h = word_of_nat (length input * 8)"
    using bc by simp
  then have cb: "count_bytes (bit_count h) = length_bytes (length input)"
    by (simp only: count_bytes_length)
  have pz: "pad_zeros (buffer h @ [0x80])
      = buffer h @ [0x80] @ replicate (zero_count (Suc (length input))) 0"
    by (simp add: pad_zeros_replicate z)
  have "pad input = pre @ ?padded"
    unfolding cb pz pad_eq pre(1) by simp
  then have "run_blocks IV (pad input) = run_blocks (hstate h) ?padded"
    using pre by (simp add: run_blocks_append)
  then show ?thesis
    using nf by (simp add: finalize_def Let_def hstate_emit_blocks)
qed

lemma stream_digest_eq:
  "stream_digest (map (map of_char) cs) = Inr (serialize (run_blocks IV (pad (concat cs))))"
proof -
  obtain h where h: "absorb_all (map (map of_char) cs) new = Inr h"
    "absorbed h ([] @ concat (map (map of_char) cs))"
    using absorb_all_absorbed [OF absorbed_new] by blast
  have "concat (map (map of_char) cs) = (map of_char (concat cs) :: u8 list)"
    by (simp add: map_concat)
  with h(2) have "absorbed h (map of_char (concat cs))" by simp
  then obtain h' where "finalize h = Inr (serialize (run_blocks IV (pad (concat cs))), h')"
    using finalize_absorbed by blast
  then show ?thesis using h(1) by (simp add: stream_digest_def)
qed

text \<open>
  Claim C8. For every way of cutting an input into chunks, absorbing the chunks one after
  the other and finalizing gives the digest of the one-shot \<^verbatim>\<open>hash\<close> of the whole input, which
  is also the digest of absorbing the input byte by byte; its hexadecimal rendering is the
  string the source's \<^verbatim>\<open>sha256\<close> returns on the whole input from the initial registers.
\<close>

theorem streaming_equivalence:
  "\<exists>d. stream_digest (map (map of_char) chunks) = Inr d
     \<and> hash (map of_char (concat chunks)) = Inr d
     \<and> stream_digest (map (\<lambda>c. [of_char c]) (concat chunks)) = Inr d
     \<and> map_option fst (sha256 IV (concat chunks)) = Some (to_hex_string d)"
proof -
  let ?d = "serialize (run_blocks IV (pad (concat chunks)))"
  have a: "stream_digest (map (map of_char) chunks) = Inr ?d"
    by (rule stream_digest_eq)
  have b: "hash (map of_char (concat chunks)) = Inr ?d"
    using stream_digest_eq [of "[concat chunks]"] by (simp add: hash_def)
  have e1: "map (map of_char) (map (\<lambda>c. [c]) xs) = map (\<lambda>c. [of_char c :: u8]) xs" for xs
    by (induction xs) simp_all
  have e2: "concat (map (\<lambda>c. [c]) xs) = xs" for xs :: string
    by (induction xs) simp_all
  have c: "stream_digest (map (\<lambda>c. [of_char c]) (concat chunks)) = Inr ?d"
    using stream_digest_eq [of "map (\<lambda>c. [c]) (concat chunks)"] by (simp only: e1 e2)
  have d: "map_option fst (sha256 IV (concat chunks)) = Some (to_hex_string ?d)"
    by (simp add: sha256_run_blocks to_hex_string_def render_serialize)
  from a b c d show ?thesis by blast
qed

section \<open>Test vectors\<close>

lemma replicate_numeral: "replicate (numeral v) x = x # replicate (pred_numeral v) x"
  by (simp add: numeral_eq_Suc)

lemma pad_abc: "pad ''abc'' = block_abc"
  by (simp add: pad_eq replicate_numeral zero_count_def length_bytes_def upt_8 block_abc_def)

lemma pad_empty: "pad [] = block_empty"
  by (simp add: pad_eq replicate_numeral zero_count_def length_bytes_def upt_8 block_empty_def)

lemma schedule_abc: "schedule block_abc 0 = Some w_abc"
  by code_simp

lemma schedule_empty: "schedule block_empty 0 = Some w_empty"
  by code_simp

lemma compress_IV_abc: "compress IV w_abc = state_abc"
  by code_simp

lemma compress_IV_empty: "compress IV w_empty = state_empty"
  by code_simp

lemma compress_abc_abc: "compress state_abc w_abc = state_abc_abc"
  by code_simp

lemma render_abc: "render state_abc = ''ba7816bf8f01cfea414140de5dae2223b00361a396177a9cb410ff61f20015ad''"
  by (simp add: render_def hex8_digits digits_8 state_abc_def hex_digit_def)

lemma render_empty: "render state_empty = ''e3b0c44298fc1c149afbf4c8996fb92427ae41e4649b934ca495991b7852b855''"
  by (simp add: render_def hex8_digits digits_8 state_empty_def hex_digit_def)

lemma render_abc_abc: "render state_abc_abc = ''1de51655e1a8ca5f570c062c6fef497dd8110762bd8a7a48dd95482f7d22e0a2''"
  by (simp add: render_def hex8_digits digits_8 state_abc_abc_def hex_digit_def)

lemma process_one_chunk:
  assumes "length message = 64" and "schedule message 0 = Some w"
  shows "process_loop message 0 st = Some (compress st w)"
proof -
  have "process_loop message 64 (compress st w) = Some (compress st w)"
    using assms(1) by (subst process_loop.simps) simp
  then show ?thesis
    using assms by (subst process_loop.simps) simp
qed

lemma sha256_one_chunk:
  assumes "pad input = message" and "length message = 64" and "schedule message 0 = Some w"
  shows "sha256 st input = Some (render (compress st w), compress st w)"
  using process_one_chunk [OF assms(2,3)] assms(1) by (simp add: sha256_def)

lemma length_block_abc: "length block_abc = 64"
  by (simp add: block_abc_def)

lemma length_block_empty: "length block_empty = 64"
  by (simp add: block_empty_def)

lemma sha256_IV_abc: "sha256 IV ''abc'' = Some (''ba7816bf8f01cfea414140de5dae2223b00361a396177a9cb410ff61f20015ad'', state_abc)"
  using sha256_one_chunk [OF pad_abc length_block_abc schedule_abc, of IV]
  by (simp only: compress_IV_abc render_abc)

lemma sha256_abc_abc: "sha256 state_abc ''abc'' = Some (''1de51655e1a8ca5f570c062c6fef497dd8110762bd8a7a48dd95482f7d22e0a2'', state_abc_abc)"
  using sha256_one_chunk [OF pad_abc length_block_abc schedule_abc, of state_abc]
  by (simp only: compress_abc_abc render_abc_abc)

lemma sha256_IV_empty: "sha256 IV [] = Some (''e3b0c44298fc1c149afbf4c8996fb92427ae41e4649b934ca495991b7852b855'', state_empty)"
  using sha256_one_chunk [OF pad_empty length_block_empty schedule_empty, of IV]
  by (simp only: compress_IV_empty render_empty)

text \<open>
  Claim C1. Called on \<^verbatim>\<open>"abc"\<close> with the registers at their initial values, \<^verbatim>\<open>sha256\<close>
  returns \<^verbatim>\<open>ba7816bf8f01cfea414140de5dae2223b00361a396177a9cb410ff61f20015ad\<close>.
\<close>

theorem sha256_abc:
  "sha256 IV ''abc''
     = Some (''ba7816bf8f01cfea414140de5dae2223b00361a396177a9cb410ff61f20015ad'',
         \<lparr>h0 = 0xba7816bf, h1 = 0x8f01cfea, h2 = 0x414140de, h3 = 0x5dae2223,
          h4 = 0xb00361a3, h5 = 0x96177a9c, h6 = 0xb410ff61, h7 = 0xf20015ad\<rparr>)"
  using sha256_IV_abc by (simp only: state_abc_def)

text \<open>
  Claim C3. Called on the empty string with the registers at their initial values,
  \<^verbatim>\<open>sha256\<close> returns \<^verbatim>\<open>e3b0c44298fc1c149afbf4c8996fb92427ae41e4649b934ca495991b7852b855\<close>.
\<close>

theorem sha256_empty:
  "sha256 IV []
     = Some (''e3b0c44298fc1c149afbf4c8996fb92427ae41e4649b934ca495991b7852b855'',
         \<lparr>h0 = 0xe3b0c442, h1 = 0x98fc1c14, h2 = 0x9afbf4c8, h3 = 0x996fb924,
          h4 = 0x27ae41e4, h5 = 0x649b934c, h6 = 0xa495991b, h7 = 0x7852b855\<rparr>)"
  using sha256_IV_empty by (simp only: state_empty_def)

text \<open>
  Claim C2 fails on the program: two calls on \<^verbatim>\<open>"abc"\<close> in one process return different
  strings, because the second call starts from the registers the first one left.
\<close>

theorem sha256_second_call:
  "calls IV [''abc'', ''abc'']
     = Some ([''ba7816bf8f01cfea414140de5dae2223b00361a396177a9cb410ff61f20015ad'',
              ''1de51655e1a8ca5f570c062c6fef497dd8110762bd8a7a48dd95482f7d22e0a2''],
         \<lparr>h0 = 0x1de51655, h1 = 0xe1a8ca5f, h2 = 0x570c062c, h3 = 0x6fef497d,
          h4 = 0xd8110762, h5 = 0xbd8a7a48, h6 = 0xdd95482f, h7 = 0x7d22e0a2\<rparr>)"
  by (simp add: sha256_IV_abc sha256_abc_abc state_abc_abc_def)

text \<open>The statements with a hypothesis, used at the input \<^verbatim>\<open>"abc"\<close>.\<close>

theorem pad_layout_witness:
  "pad ''abc'' = map of_char ''abc'' @ [0x80] @ replicate 52 0 @ length_bytes 3
   \<and> (0::nat) < 52 \<and> ((3 + 1 + 0) * 8 + 64) mod 512 \<noteq> (0::nat)
   \<and> (3::nat) < 2 ^ 61 \<and> be_nat (length_bytes 3) = 24
   \<and> length (pad ''abc'') = 64"
proof -
  have n: "length ''abc'' = 3" by simp
  obtain z where a: "pad ''abc'' = map of_char ''abc'' @ [0x80] @ replicate z 0 @ length_bytes 3"
    and m: "\<forall>z'<z. ((3 + 1 + z') * 8 + 64) mod 512 \<noteq> 0"
    and b: "3 < (2::nat) ^ 61 \<longrightarrow> be_nat (length_bytes 3) = 3 * 8"
    and c: "length (pad ''abc'') = 64 * (3 div 64 + (if (3::nat) mod 64 \<le> 55 then 1 else 2))"
    using pad_layout [of "''abc''", unfolded n] by blast
  from c have c': "length (pad ''abc'') = 64" by simp
  have "length (pad ''abc'') = 3 + 1 + z + 8"
    by (subst a) (simp add: length_length_bytes)
  with c' have z: "z = 52" by simp
  from m z have "((3 + 1 + 0) * 8 + 64) mod 512 \<noteq> (0::nat)" by simp
  moreover from b have "be_nat (length_bytes 3) = 24" by simp
  ultimately show ?thesis using a c' z by simp
qed

theorem schedule_words_witness:
  "0 + 64 \<le> length (pad ''abc'')
   \<and> (\<exists>w. schedule (pad ''abc'') 0 = Some w \<and> length w = 64
         \<and> unat (w ! 0) = 0x61626380
         \<and> w ! 16 = sigma1 (w ! 14) + w ! 9 + sigma0 (w ! 1) + w ! 0)"
proof -
  have l: "0 + 64 \<le> length (pad ''abc'')"
    by (simp add: pad_abc length_block_abc)
  obtain w where s: "schedule (pad ''abc'') 0 = Some w" and n: "length w = 64"
    and a: "\<forall>j<16. unat (w ! j)
           = 2 ^ 24 * unat (pad ''abc'' ! (0 + j * 4)) + 2 ^ 16 * unat (pad ''abc'' ! (0 + j * 4 + 1))
             + 2 ^ 8 * unat (pad ''abc'' ! (0 + j * 4 + 2)) + unat (pad ''abc'' ! (0 + j * 4 + 3))"
    and b: "\<forall>j. 16 \<le> j \<and> j < 64 \<longrightarrow>
           w ! j = sigma1 (w ! (j - 2)) + w ! (j - 7) + sigma0 (w ! (j - 15)) + w ! (j - 16)"
    using schedule_words [OF l] by blast
  from a have "unat (w ! 0) = 0x61626380"
    by (simp add: pad_abc block_abc_def)
  moreover from b have "w ! 16 = sigma1 (w ! 14) + w ! 9 + sigma0 (w ! 1) + w ! 0"
    by simp
  ultimately show ?thesis using l s n by blast
qed

theorem sha256_total_witness:
  "(0::nat) < length (pad ''abc'') \<and> (0::nat) mod 64 = 0 \<and> (15::nat) < 16 \<and> (3::nat) < 4
   \<and> byte_at (pad ''abc'') (0 + 15 * 4 + 3) = Some 24
   \<and> (\<exists>n. 0 < n \<and> length (pad ''abc'') = 64 * n)
   \<and> (\<exists>d st'. sha256 IV ''abc'' = Some (d, st'))"
proof -
  have l: "length (pad ''abc'') = 64"
    by (simp add: pad_abc length_block_abc)
  have t: "(\<exists>n. 0 < n \<and> length (pad ''abc'') = 64 * n)
     \<and> (\<forall>i j c. i < length (pad ''abc'') \<and> i mod 64 = 0 \<and> j < 16 \<and> c < 4
          \<longrightarrow> i + j * 4 + c < length (pad ''abc'')
            \<and> byte_at (pad ''abc'') (i + j * 4 + c) = Some (pad ''abc'' ! (i + j * 4 + c)))
     \<and> (\<exists>d st'. sha256 IV ''abc'' = Some (d, st'))"
    by (rule sha256_total)
  then have "\<forall>i j c. i < length (pad ''abc'') \<and> i mod 64 = 0 \<and> j < 16 \<and> c < 4
          \<longrightarrow> i + j * 4 + c < length (pad ''abc'')
            \<and> byte_at (pad ''abc'') (i + j * 4 + c) = Some (pad ''abc'' ! (i + j * 4 + c))"
    by (elim conjE)
  then have "(0::nat) < length (pad ''abc'') \<and> (0::nat) mod 64 = 0 \<and> (15::nat) < 16 \<and> (3::nat) < 4
      \<longrightarrow> 0 + 15 * 4 + 3 < length (pad ''abc'')
        \<and> byte_at (pad ''abc'') (0 + 15 * 4 + 3) = Some (pad ''abc'' ! (0 + 15 * 4 + 3))"
    by (elim allE [of _ "0::nat"] allE [of _ "15::nat"] allE [of _ "3::nat"])
  then have "byte_at (pad ''abc'') (0 + 15 * 4 + 3) = Some (pad ''abc'' ! (0 + 15 * 4 + 3))"
    using l by simp
  also have "pad ''abc'' ! (0 + 15 * 4 + 3) = 24"
    by (simp add: pad_abc block_abc_def)
  finally show ?thesis
    using t l by simp
qed

theorem sha256_leaves_state_witness:
  "sha256 IV ''abc''
     = Some (''ba7816bf8f01cfea414140de5dae2223b00361a396177a9cb410ff61f20015ad'', state_abc)
   \<and> process_loop (pad ''abc'') 0 IV = Some state_abc
   \<and> render state_abc = ''ba7816bf8f01cfea414140de5dae2223b00361a396177a9cb410ff61f20015ad''
   \<and> state_abc \<noteq> IV
   \<and> calls IV [''abc'', ''abc'']
       = Some ([''ba7816bf8f01cfea414140de5dae2223b00361a396177a9cb410ff61f20015ad'',
                ''1de51655e1a8ca5f570c062c6fef497dd8110762bd8a7a48dd95482f7d22e0a2''],
           state_abc_abc)"
proof -
  have "h0 state_abc \<noteq> h0 IV"
    by (simp add: state_abc_def IV_def)
  then have "state_abc \<noteq> IV" by auto
  then show ?thesis
    using sha256_leaves_state [OF sha256_IV_abc, of "''abc''"] sha256_IV_abc
    by (simp add: sha256_abc_abc)
qed

end
